theory Spec2Isabelle
  imports Main
begin

section \<open>Data model (backend/app/models/models.py)\<close>

text \<open>
  The discussion-thread engine keeps its state in a relational store. The tables that the
  reply tree and the vote ledger read and write are embedded as lists of rows, in the
  order in which the rows were inserted. Integer columns are Python integers
  (\<^typ>\<open>int\<close>), nullable columns are \<^typ>\<open>'a option\<close>, timestamps are readings of
  the store's clock (\<^typ>\<open>nat\<close>).
\<close>

datatype VoteType = upvote | downvote

text \<open>
  \<open>VoteType\<close> is a plain \<open>enum.Enum\<close> (not a \<open>str\<close> mix-in): a member carries a string
  \<open>value\<close>, and \<open>VoteType(s)\<close> looks a member up by that string.
\<close>

fun VoteType_value :: "VoteType \<Rightarrow> string" where
  "VoteType_value upvote = ''upvote''"
| "VoteType_value downvote = ''downvote''"

definition VoteType_of :: "string \<Rightarrow> VoteType option" where
  "VoteType_of s =
     (if s = ''upvote'' then Some upvote
      else if s = ''downvote'' then Some downvote
      else None)"

text \<open>
  The Python values that the vote properties compare with \<open>==\<close>: an enum member or a
  string. A member of a plain \<open>Enum\<close> is equal to a member only; it is never equal to a
  string, not even to its own \<open>value\<close>.
\<close>

datatype pyval = EnumVal VoteType | StrVal string

fun py_eq :: "pyval \<Rightarrow> pyval \<Rightarrow> bool" where
  "py_eq (EnumVal a) (EnumVal b) = (a = b)"
| "py_eq (StrVal a) (StrVal b) = (a = b)"
| "py_eq (EnumVal a) (StrVal b) = False"
| "py_eq (StrVal a) (EnumVal b) = False"

record vote =
  v_id :: int
  v_user_id :: int
  v_post_id :: "int option"
  v_reply_id :: "int option"
  v_vote_type :: VoteType
  v_created_at :: nat
  v_updated_at :: nat

record reply =
  r_id :: int
  r_content :: string
  r_post_id :: int
  r_author_id :: int
  r_parent_id :: "int option"
  r_created_at :: nat
  r_updated_at :: nat
  r_deleted_at :: "nat option"

text \<open>
  Of the posts and the users only the primary keys are read by the code embedded here.
\<close>

record db =
  posts :: "int list"
  users :: "int list"
  replies :: "reply list"
  votes :: "vote list"

datatype error =
    ValueError string
  | AttributeError
  | IntegrityError
  | StaleDataError
  | HTTPException nat string

text \<open>Python's truth value of an \<open>Optional[int]\<close>: \<open>None\<close> and \<open>0\<close> are false.\<close>

fun truthy :: "int option \<Rightarrow> bool" where
  "truthy None = False"
| "truthy (Some i) = (i \<noteq> 0)"

text \<open>Python's \<open>str\<close> of an integer, as the formatted error messages spell a key.\<close>

fun str_nat :: "nat \<Rightarrow> string" where
  "str_nat n =
     (if n < 10 then [char_of (48 + n)]
      else str_nat (n div 10) @ [char_of (48 + n mod 10)])"

declare str_nat.simps [simp del]

definition str_int :: "int \<Rightarrow> string" where
  "str_int i = (if i < 0 then CHR ''-'' # str_nat (nat (- i)) else str_nat (nat i))"

text \<open>An autoincremented primary key: one more than the largest key in the table.\<close>

definition new_id :: "int list \<Rightarrow> int" where
  "new_id ids = fold max ids 0 + 1"

text \<open>\<open>query.offset(skip).limit(limit)\<close> and the slice \<open>xs[skip:skip + limit]\<close>.\<close>

definition paginate :: "nat \<Rightarrow> nat \<Rightarrow> 'a list \<Rightarrow> 'a list" where
  "paginate skip limit xs = take limit (drop skip xs)"

section \<open>The vote ledger (backend/app/crud/vote.py)\<close>

definition get_user_vote :: "db \<Rightarrow> int \<Rightarrow> int option \<Rightarrow> int option \<Rightarrow> vote option" where
  "get_user_vote d user_id post_id reply_id =
     (if truthy post_id then
        find (\<lambda>v. v_user_id v = user_id \<and> v_post_id v = post_id) (votes d)
      else if truthy reply_id then
        find (\<lambda>v. v_user_id v = user_id \<and> v_reply_id v = reply_id) (votes d)
      else None)"

text \<open>
  The constraints of the \<open>votes\<close> table, checked when a row is inserted: the two
  uniqueness constraints \<open>unique_user_post_vote\<close> and \<open>unique_user_reply_vote\<close> (a
  \<open>NULL\<close> target never collides), the check constraint \<open>vote_target_constraint\<close>,
  and the foreign keys of \<open>user_id\<close>, \<open>post_id\<close> and \<open>reply_id\<close> into the users, the
  posts and the replies (a \<open>NULL\<close> reference is allowed), which the configured
  PostgreSQL store enforces. A violation of any of them is an \<open>IntegrityError\<close>.
\<close>

definition violates_unique :: "vote list \<Rightarrow> vote \<Rightarrow> bool" where
  "violates_unique vs v =
     (list_ex (\<lambda>w. v_user_id w = v_user_id v \<and> v_post_id v \<noteq> None
                  \<and> v_post_id w = v_post_id v) vs
      \<or> list_ex (\<lambda>w. v_user_id w = v_user_id v \<and> v_reply_id v \<noteq> None
                  \<and> v_reply_id w = v_reply_id v) vs)"

definition vote_target_constraint :: "vote \<Rightarrow> bool" where
  "vote_target_constraint v =
     ((v_post_id v \<noteq> None \<and> v_reply_id v = None)
      \<or> (v_post_id v = None \<and> v_reply_id v \<noteq> None))"

definition vote_foreign_keys :: "db \<Rightarrow> vote \<Rightarrow> bool" where
  "vote_foreign_keys d v =
     (v_user_id v \<in> set (users d)
      \<and> (case v_post_id v of None \<Rightarrow> True | Some p \<Rightarrow> p \<in> set (posts d))
      \<and> (case v_reply_id v of None \<Rightarrow> True | Some r \<Rightarrow> r \<in> set (map r_id (replies d))))"

definition insert_vote :: "db \<Rightarrow> vote \<Rightarrow> error + db" where
  "insert_vote d v =
     (if violates_unique (votes d) v \<or> \<not> vote_target_constraint v
         \<or> \<not> vote_foreign_keys d v
      then Inl IntegrityError
      else Inr (d\<lparr>votes := votes d @ [v]\<rparr>))"

text \<open>
  \<open>create_vote\<close> reads first (validation, the existence of the target, the caller's
  existing vote) and writes afterwards. \<open>create_vote_on seen d\<close> runs the reads on the
  state \<open>seen\<close> and the write on the state \<open>d\<close>; a call that is not interleaved with
  another one has \<open>seen = d\<close>, which is \<open>create_vote\<close>. The result is the new state
  together with the returned vote, \<open>None\<close> being Python's \<open>None\<close> (the vote was removed).
  The delete and the update address the row by its primary key; an update that matches no
  row is a \<open>StaleDataError\<close> of the unit of work, a delete that matches none only warns.
\<close>

definition create_vote_on ::
  "db \<Rightarrow> db \<Rightarrow> nat \<Rightarrow> int \<Rightarrow> string \<Rightarrow> int option \<Rightarrow> int option \<Rightarrow> error + (vote option \<times> db)" where
  "create_vote_on seen d now user_id vote_type post_id reply_id =
     (if vote_type \<notin> set [VoteType_value upvote, VoteType_value downvote] then
        Inl (ValueError (''Invalid vote type: '' @ vote_type))
      else if (post_id = None \<and> reply_id = None) \<or> (post_id \<noteq> None \<and> reply_id \<noteq> None) then
        Inl (ValueError ''Vote must target exactly one post or reply'')
      else if truthy post_id \<and> find (\<lambda>p. Some p = post_id) (posts seen) = None then
        Inl (ValueError (''Post with id '' @ str_int (the post_id) @ '' not found''))
      else if truthy reply_id \<and> find (\<lambda>r. Some (r_id r) = reply_id) (replies seen) = None then
        Inl (ValueError (''Reply with id '' @ str_int (the reply_id) @ '' not found''))
      else
        (case get_user_vote seen user_id post_id reply_id of
           Some existing_vote \<Rightarrow>
             if VoteType_value (v_vote_type existing_vote) = vote_type then
               Inr (None, d\<lparr>votes := filter (\<lambda>v. v_id v \<noteq> v_id existing_vote) (votes d)\<rparr>)
             else
               (case VoteType_of vote_type of
                  None \<Rightarrow> Inl (ValueError ([CHR 0x27] @ vote_type @ [CHR 0x27] @ '' is not a valid VoteType''))
                | Some t \<Rightarrow>
                    if \<not> list_ex (\<lambda>v. v_id v = v_id existing_vote) (votes d) then
                      Inl StaleDataError
                    else
                      let updated = existing_vote\<lparr>v_vote_type := t, v_updated_at := now\<rparr>
                      in Inr (Some updated,
                              d\<lparr>votes := map (\<lambda>v. if v_id v = v_id existing_vote
                                                    then v\<lparr>v_vote_type := t, v_updated_at := now\<rparr>
                                                    else v) (votes d)\<rparr>))
         | None \<Rightarrow>
             (case VoteType_of vote_type of
                None \<Rightarrow> Inl (ValueError ([CHR 0x27] @ vote_type @ [CHR 0x27] @ '' is not a valid VoteType''))
              | Some t \<Rightarrow>
                  let vote = \<lparr>v_id = new_id (map v_id (votes d)), v_user_id = user_id,
                              v_post_id = post_id, v_reply_id = reply_id, v_vote_type = t,
                              v_created_at = now, v_updated_at = now\<rparr>
                  in (case insert_vote d vote of
                        Inl e \<Rightarrow> Inl e
                      | Inr d' \<Rightarrow> Inr (Some vote, d')))))"

definition create_vote ::
  "db \<Rightarrow> nat \<Rightarrow> int \<Rightarrow> string \<Rightarrow> int option \<Rightarrow> int option \<Rightarrow> error + (vote option \<times> db)" where
  "create_vote d now user_id vote_type post_id reply_id =
     create_vote_on d d now user_id vote_type post_id reply_id"

record vote_counts =
  upvote_count :: nat
  downvote_count :: nat
  net_votes :: int
  total_votes :: nat

definition get_vote_counts_for_post :: "db \<Rightarrow> int \<Rightarrow> vote_counts" where
  "get_vote_counts_for_post d post_id =
     (let vs = filter (\<lambda>v. v_post_id v = Some post_id) (votes d);
          upvotes = length (filter (\<lambda>v. v_vote_type v = upvote) vs);
          downvotes = length (filter (\<lambda>v. v_vote_type v = downvote) vs)
      in \<lparr>upvote_count = upvotes, downvote_count = downvotes,
          net_votes = int upvotes - int downvotes,
          total_votes = upvotes + downvotes\<rparr>)"

definition get_vote_counts_for_reply :: "db \<Rightarrow> int \<Rightarrow> vote_counts" where
  "get_vote_counts_for_reply d reply_id =
     (let vs = filter (\<lambda>v. v_reply_id v = Some reply_id) (votes d);
          upvotes = length (filter (\<lambda>v. v_vote_type v = upvote) vs);
          downvotes = length (filter (\<lambda>v. v_vote_type v = downvote) vs)
      in \<lparr>upvote_count = upvotes, downvote_count = downvotes,
          net_votes = int upvotes - int downvotes,
          total_votes = upvotes + downvotes\<rparr>)"

text \<open>
  The vote endpoints (backend/app/routers/votes.py). The request body \<open>VoteCreate\<close> has
  been validated by the schema: its \<open>vote_type\<close> is a member of the enum. The
  \<open>HTTPException\<close> with status 404 is raised inside the \<open>try\<close> block, whose last
  handler catches every \<open>Exception\<close> and raises status 500 in its place.
\<close>

datatype vote_response =
    VoteResponse vote
  | VoteRemovalResponse string VoteType

definition vote_result ::
  "VoteType \<Rightarrow> error + (vote option \<times> db) \<Rightarrow> error + (vote_response \<times> db)" where
  "vote_result vote_type res =
     (case res of
        Inl (ValueError e) \<Rightarrow> Inl (HTTPException 400 e)
      | Inl _ \<Rightarrow> Inl (HTTPException 500 ''Failed to process vote'')
      | Inr (None, d') \<Rightarrow> Inr (VoteRemovalResponse ''Vote removed'' vote_type, d')
      | Inr (Some v, d') \<Rightarrow> Inr (VoteResponse v, d'))"



section \<open>Entity properties (backend/app/models/models.py)\<close>

text \<open>
  The relationship \<open>Post.votes\<close> (\<open>Reply.votes\<close>) loads the vote rows whose \<open>post_id\<close>
  (\<open>reply_id\<close>) is the entity's key. The column \<open>vote_type\<close> is an \<open>Enum(VoteType)\<close>
  column: a loaded row carries a member of the enum, and the properties compare it with
  the string \<open>VoteType.upvote.value\<close>.
\<close>

definition Post_votes :: "db \<Rightarrow> int \<Rightarrow> vote list" where
  "Post_votes d post_id = filter (\<lambda>v. v_post_id v = Some post_id) (votes d)"

definition Post_upvote_count :: "db \<Rightarrow> int \<Rightarrow> nat" where
  "Post_upvote_count d post_id =
     length (filter (\<lambda>v. py_eq (EnumVal (v_vote_type v)) (StrVal (VoteType_value upvote)))
               (Post_votes d post_id))"

definition Post_downvote_count :: "db \<Rightarrow> int \<Rightarrow> nat" where
  "Post_downvote_count d post_id =
     length (filter (\<lambda>v. py_eq (EnumVal (v_vote_type v)) (StrVal (VoteType_value downvote)))
               (Post_votes d post_id))"

definition Post_net_votes :: "db \<Rightarrow> int \<Rightarrow> int" where
  "Post_net_votes d post_id = int (Post_upvote_count d post_id) - int (Post_downvote_count d post_id)"

definition Reply_votes :: "db \<Rightarrow> int \<Rightarrow> vote list" where
  "Reply_votes d reply_id = filter (\<lambda>v. v_reply_id v = Some reply_id) (votes d)"

definition Reply_upvote_count :: "db \<Rightarrow> int \<Rightarrow> nat" where
  "Reply_upvote_count d reply_id =
     length (filter (\<lambda>v. py_eq (EnumVal (v_vote_type v)) (StrVal (VoteType_value upvote)))
               (Reply_votes d reply_id))"

definition Reply_downvote_count :: "db \<Rightarrow> int \<Rightarrow> nat" where
  "Reply_downvote_count d reply_id =
     length (filter (\<lambda>v. py_eq (EnumVal (v_vote_type v)) (StrVal (VoteType_value downvote)))
               (Reply_votes d reply_id))"

definition Reply_net_votes :: "db \<Rightarrow> int \<Rightarrow> int" where
  "Reply_net_votes d reply_id =
     int (Reply_upvote_count d reply_id) - int (Reply_downvote_count d reply_id)"

text \<open>
  The relationship \<open>Reply.parent\<close> loads the row whose key is \<open>parent_id\<close>, deleted or
  not; \<open>Reply.children\<close> loads the rows that point to this one, ordered by
  \<open>created_at\<close>. An \<open>ORDER BY\<close> is embedded as a stable sort of the table.
\<close>

definition Reply_parent :: "db \<Rightarrow> reply \<Rightarrow> reply option" where
  "Reply_parent d r =
     (case r_parent_id r of
        None \<Rightarrow> None
      | Some p \<Rightarrow> find (\<lambda>x. r_id x = p) (replies d))"

definition Reply_children :: "db \<Rightarrow> reply \<Rightarrow> reply list" where
  "Reply_children d r =
     sort_key r_created_at (filter (\<lambda>x. r_parent_id x = Some (r_id r)) (replies d))"

text \<open>
  The recursive properties and the loop of \<open>ancestors\<close> follow parent and child
  pointers for as long as there are any. They take fuel, the number of nested calls
  (of iterations) allowed; \<open>None\<close> says that the fuel did not suffice. On a cycle of
  parent pointers no fuel suffices: the loop does not end, and the recursion ends in
  Python's recursion limit.
\<close>

fun depth :: "nat \<Rightarrow> db \<Rightarrow> reply \<Rightarrow> nat option" where
  "depth 0 d r = None"
| "depth (Suc n) d r =
     (case Reply_parent d r of
        None \<Rightarrow> Some 0
      | Some p \<Rightarrow> map_option (\<lambda>k. k + 1) (depth n d p))"

fun thread_root :: "nat \<Rightarrow> db \<Rightarrow> reply \<Rightarrow> reply option" where
  "thread_root 0 d r = None"
| "thread_root (Suc n) d r =
     (case Reply_parent d r of
        None \<Rightarrow> Some r
      | Some p \<Rightarrow> thread_root n d p)"

fun ancestors_loop :: "nat \<Rightarrow> db \<Rightarrow> reply option \<Rightarrow> reply list \<Rightarrow> reply list option" where
  "ancestors_loop 0 d current acc = None"
| "ancestors_loop (Suc n) d None acc = Some acc"
| "ancestors_loop (Suc n) d (Some c) acc = ancestors_loop n d (Reply_parent d c) (acc @ [c])"

definition ancestors :: "nat \<Rightarrow> db \<Rightarrow> reply \<Rightarrow> reply list option" where
  "ancestors n d r = ancestors_loop n d (Reply_parent d r) []"

text \<open>
  \<open>descendants_for n d cs\<close> is the loop \<open>for child in self.children\<close> over the children
  \<open>cs\<close>, each iteration calling \<open>child.descendants\<close>.
\<close>

fun descendants_for :: "nat \<Rightarrow> db \<Rightarrow> reply list \<Rightarrow> reply list option" where
  "descendants_for 0 d cs = None"
| "descendants_for (Suc n) d [] = Some []"
| "descendants_for (Suc n) d (c # cs) =
     (case descendants_for n d (Reply_children d c) of
        None \<Rightarrow> None
      | Some sub \<Rightarrow>
          (case descendants_for (Suc n) d cs of
             None \<Rightarrow> None
           | Some rest \<Rightarrow> Some (c # sub @ rest)))"

definition descendants :: "nat \<Rightarrow> db \<Rightarrow> reply \<Rightarrow> reply list option" where
  "descendants n d r = descendants_for n d (Reply_children d r)"

definition siblings :: "db \<Rightarrow> reply \<Rightarrow> error + reply list" where
  "siblings d r =
     (case Reply_parent d r of
        None \<Rightarrow>
          if r_post_id r \<in> set (posts d) then
            Inr (filter (\<lambda>x. Reply_parent d x = None \<and> r_id x \<noteq> r_id r)
                   (filter (\<lambda>x. r_post_id x = r_post_id r) (replies d)))
          else Inl AttributeError
      | Some p \<Rightarrow> Inr (filter (\<lambda>x. r_id x \<noteq> r_id r) (Reply_children d p)))"

definition can_reply_to :: "nat \<Rightarrow> db \<Rightarrow> reply \<Rightarrow> bool option" where
  "can_reply_to n d r = map_option (\<lambda>k. k < 10) (depth n d r)"

section \<open>The reply tree (backend/app/crud/reply.py)\<close>

text \<open>
  The query shared by the flat and the threaded listing: the replies of the post that are
  not soft-deleted, ordered by \<open>created_at\<close>.
\<close>

definition post_replies_query :: "db \<Rightarrow> int \<Rightarrow> reply list" where
  "post_replies_query d post_id =
     sort_key r_created_at
       (filter (\<lambda>r. r_post_id r = post_id \<and> r_deleted_at r = None) (replies d))"

definition get_post_replies :: "db \<Rightarrow> int \<Rightarrow> nat \<Rightarrow> nat \<Rightarrow> reply list" where
  "get_post_replies d post_id skip limit = paginate skip limit (post_replies_query d post_id)"

text \<open>
  The threaded listing. \<open>reply_dict\<close> maps a key to its reply (a later row wins). The
  loop over \<open>all_replies\<close> collects the root replies and appends every other reply to the
  \<open>_children_cache\<close> of its parent, when the parent is in \<open>reply_dict\<close>; the attribute is
  embedded as a map from the parent's key to the cached list, a key without an entry being
  an object without the attribute. Keys identify objects because \<open>id\<close> is the primary key.
\<close>

definition reply_dict :: "reply list \<Rightarrow> (int \<rightharpoonup> reply)" where
  "reply_dict all_replies = fold (\<lambda>r m. m(r_id r \<mapsto> r)) all_replies Map.empty"

definition hierarchy_step ::
  "(int \<rightharpoonup> reply) \<Rightarrow> reply \<Rightarrow> reply list \<times> (int \<rightharpoonup> reply list) \<Rightarrow> reply list \<times> (int \<rightharpoonup> reply list)" where
  "hierarchy_step rd r st =
     (case r_parent_id r of
        None \<Rightarrow> (fst st @ [r], snd st)
      | Some pid \<Rightarrow>
          (case rd pid of
             None \<Rightarrow> st
           | Some parent \<Rightarrow>
               (fst st,
                (snd st)(r_id parent \<mapsto>
                   (case snd st (r_id parent) of None \<Rightarrow> [] | Some cs \<Rightarrow> cs) @ [r]))))"

definition thread_hierarchy :: "reply list \<Rightarrow> reply list \<times> (int \<rightharpoonup> reply list)" where
  "thread_hierarchy all_replies =
     fold (hierarchy_step (reply_dict all_replies)) all_replies ([], Map.empty)"

fun flatten_replies :: "nat \<Rightarrow> (int \<rightharpoonup> reply list) \<Rightarrow> reply list \<Rightarrow> reply list option" where
  "flatten_replies 0 cache rs = None"
| "flatten_replies (Suc n) cache [] = Some []"
| "flatten_replies (Suc n) cache (r # rs) =
     (case cache (r_id r) of
        None \<Rightarrow> map_option (\<lambda>rest. r # rest) (flatten_replies (Suc n) cache rs)
      | Some cs \<Rightarrow>
          (case flatten_replies n cache cs of
             None \<Rightarrow> None
           | Some sub \<Rightarrow> map_option (\<lambda>rest. r # sub @ rest) (flatten_replies (Suc n) cache rs)))"

definition get_post_replies_threaded :: "nat \<Rightarrow> db \<Rightarrow> int \<Rightarrow> nat \<Rightarrow> nat \<Rightarrow> reply list option" where
  "get_post_replies_threaded n d post_id skip limit =
     (let all_replies = post_replies_query d post_id;
          (root_replies, cache) = thread_hierarchy all_replies
      in map_option (paginate skip limit) (flatten_replies n cache root_replies))"

definition get_reply_by_id :: "db \<Rightarrow> int \<Rightarrow> reply option" where
  "get_reply_by_id d reply_id =
     find (\<lambda>r. r_id r = reply_id \<and> r_deleted_at r = None) (replies d)"

text \<open>
  \<open>ReplyCreate\<close> is the request body after the schema's validation (content trimmed, not
  empty and at most 10000 characters).
\<close>

record ReplyCreate =
  rc_content :: string
  rc_author_id :: int
  rc_parent_id :: "int option"

text \<open>
  The insert of a reply row checks the foreign keys of \<open>post_id\<close>, \<open>author_id\<close> and
  \<open>parent_id\<close> (a \<open>NULL\<close> parent is allowed), as the store does.
\<close>

definition reply_foreign_keys :: "db \<Rightarrow> reply \<Rightarrow> bool" where
  "reply_foreign_keys d r =
     (r_post_id r \<in> set (posts d)
      \<and> r_author_id r \<in> set (users d)
      \<and> (case r_parent_id r of None \<Rightarrow> True | Some p \<Rightarrow> p \<in> set (map r_id (replies d))))"

definition insert_reply :: "db \<Rightarrow> nat \<Rightarrow> ReplyCreate \<Rightarrow> int \<Rightarrow> error + reply \<times> db" where
  "insert_reply d now reply post_id =
     (let db_reply = \<lparr>r_id = new_id (map r_id (replies d)), r_content = rc_content reply,
                      r_post_id = post_id, r_author_id = rc_author_id reply,
                      r_parent_id = rc_parent_id reply, r_created_at = now,
                      r_updated_at = now, r_deleted_at = None\<rparr>
      in if \<not> reply_foreign_keys d db_reply then Inl IntegrityError
         else Inr (db_reply, d\<lparr>replies := replies d @ [db_reply]\<rparr>))"

definition create_reply ::
  "nat \<Rightarrow> db \<Rightarrow> nat \<Rightarrow> ReplyCreate \<Rightarrow> int \<Rightarrow> (error + reply \<times> db) option" where
  "create_reply n d now reply post_id =
     (if find (\<lambda>p. p = post_id) (posts d) = None then Some (Inl (ValueError ''Post not found''))
      else if find (\<lambda>u. u = rc_author_id reply) (users d) = None then
        Some (Inl (ValueError ''Author not found''))
      else if truthy (rc_parent_id reply) then
        (case find (\<lambda>r. Some (r_id r) = rc_parent_id reply \<and> r_post_id r = post_id
                         \<and> r_deleted_at r = None) (replies d) of
           None \<Rightarrow> Some (Inl (ValueError ''Parent reply not found''))
         | Some parent_reply \<Rightarrow>
             (case can_reply_to n d parent_reply of
                None \<Rightarrow> None
              | Some ok \<Rightarrow>
                  if \<not> ok then Some (Inl (ValueError ''Maximum reply depth exceeded''))
                  else Some (insert_reply d now reply post_id)))
      else Some (insert_reply d now reply post_id))"


text \<open>
  The soft delete stores \<open>datetime.utcnow()\<close>, the reading \<open>utcnow\<close> of the
  application's clock, in \<open>deleted_at\<close>.
\<close>

definition delete_reply :: "db \<Rightarrow> nat \<Rightarrow> nat \<Rightarrow> int \<Rightarrow> bool \<times> db" where
  "delete_reply d utcnow db_now reply_id =
     (case get_reply_by_id d reply_id of
        None \<Rightarrow> (False, d)
      | Some db_reply \<Rightarrow>
          (True,
           d\<lparr>replies := map (\<lambda>x. if r_id x = r_id db_reply
                                   then x\<lparr>r_deleted_at := Some utcnow, r_updated_at := db_now\<rparr>
                                   else x) (replies d)\<rparr>))"

definition get_reply_thread :: "nat \<Rightarrow> db \<Rightarrow> int \<Rightarrow> reply list option" where
  "get_reply_thread n d reply_id =
     (case get_reply_by_id d reply_id of
        None \<Rightarrow> Some []
      | Some reply \<Rightarrow>
          (case thread_root n d reply of
             None \<Rightarrow> None
           | Some root_reply \<Rightarrow>
               (case descendants n d root_reply of
                  None \<Rightarrow> None
                | Some ds \<Rightarrow> Some (sort_key r_created_at ([root_reply] @ ds)))))"


definition get_reply_ancestors :: "nat \<Rightarrow> db \<Rightarrow> int \<Rightarrow> reply list option" where
  "get_reply_ancestors n d reply_id =
     (case get_reply_by_id d reply_id of
        None \<Rightarrow> Some []
      | Some reply \<Rightarrow> ancestors n d reply)"

definition get_reply_descendants :: "nat \<Rightarrow> db \<Rightarrow> int \<Rightarrow> reply list option" where
  "get_reply_descendants n d reply_id =
     (case get_reply_by_id d reply_id of
        None \<Rightarrow> Some []
      | Some reply \<Rightarrow> descendants n d reply)"

definition get_reply_siblings :: "db \<Rightarrow> int \<Rightarrow> error + reply list" where
  "get_reply_siblings d reply_id =
     (case get_reply_by_id d reply_id of
        None \<Rightarrow> Inr []
      | Some reply \<Rightarrow> siblings d reply)"

section \<open>The reply endpoints (backend/app/routers/replies.py)\<close>

text \<open>
  The navigation endpoints test the list that the crud function returned: three of
  them with \<open>is None\<close>, the thread endpoint with \<open>not\<close>. The value tested is a Python
  object, a list here; an exception that is not an \<open>HTTPException\<close> leaves the
  endpoint as it is.
\<close>

datatype pyobj = PyNone | PyList "reply list"

fun is_None :: "pyobj \<Rightarrow> bool" where
  "is_None PyNone = True"
| "is_None (PyList xs) = False"

fun py_not :: "pyobj \<Rightarrow> bool" where
  "py_not PyNone = True"
| "py_not (PyList xs) = (xs = [])"

definition get_reply_thread_endpoint :: "nat \<Rightarrow> db \<Rightarrow> int \<Rightarrow> (error + reply list) option" where
  "get_reply_thread_endpoint n d reply_id =
     map_option (\<lambda>thread_replies.
         if py_not (PyList thread_replies) then Inl (HTTPException 404 ''Reply not found'')
         else Inr thread_replies)
       (get_reply_thread n d reply_id)"


definition get_reply_ancestors_endpoint :: "nat \<Rightarrow> db \<Rightarrow> int \<Rightarrow> (error + reply list) option" where
  "get_reply_ancestors_endpoint n d reply_id =
     map_option (\<lambda>ancs.
         if is_None (PyList ancs) then Inl (HTTPException 404 ''Reply not found'')
         else Inr ancs)
       (get_reply_ancestors n d reply_id)"

definition get_reply_descendants_endpoint :: "nat \<Rightarrow> db \<Rightarrow> int \<Rightarrow> (error + reply list) option" where
  "get_reply_descendants_endpoint n d reply_id =
     map_option (\<lambda>descs.
         if is_None (PyList descs) then Inl (HTTPException 404 ''Reply not found'')
         else Inr descs)
       (get_reply_descendants n d reply_id)"

definition get_reply_siblings_endpoint :: "db \<Rightarrow> int \<Rightarrow> error + reply list" where
  "get_reply_siblings_endpoint d reply_id =
     (case get_reply_siblings d reply_id of
        Inl e \<Rightarrow> Inl e
      | Inr sibs \<Rightarrow>
          if is_None (PyList sibs) then Inl (HTTPException 404 ''Reply not found'')
          else Inr sibs)"

section \<open>Example stores and the notions used in the statements\<close>

text \<open>
  A thread of ten nested replies under post 1, at depths 0 to 9, as the test
  \<open>test_reply_max_depth_limit\<close> builds it.
\<close>

definition chain_db :: db where
  "chain_db =
     \<lparr>posts = [1], users = [1],
      replies = map (\<lambda>i. \<lparr>r_id = i, r_content = ''Level'', r_post_id = 1, r_author_id = 1,
                           r_parent_id = (if i = 1 then None else Some (i - 1)),
                           r_created_at = nat i, r_updated_at = nat i, r_deleted_at = None\<rparr>)
                  [1, 2, 3, 4, 5, 6, 7, 8, 9, 10],
      votes = []\<rparr>"

text \<open>A store with one post, one user and nothing else.\<close>

definition fresh_db :: db where
  "fresh_db = \<lparr>posts = [1], users = [1], replies = [], votes = []\<rparr>"

text \<open>A store whose only reply, with key 1, is soft-deleted.\<close>

definition deleted_db :: db where
  "deleted_db =
     \<lparr>posts = [1], users = [1],
      replies = [\<lparr>r_id = 1, r_content = ''gone'', r_post_id = 1, r_author_id = 1,
                  r_parent_id = None, r_created_at = 1, r_updated_at = 2,
                  r_deleted_at = Some 2\<rparr>],
      votes = []\<rparr>"



text \<open>
  A target of a cast is a post or a reply of the store, given by a key that is not 0
  (keys are positive; the code tests a key by its truth value). A vote row is on the
  target when the target's column holds the key.
\<close>

definition valid_target :: "db \<Rightarrow> int option \<Rightarrow> int option \<Rightarrow> bool" where
  "valid_target d post_id reply_id =
     (case (post_id, reply_id) of
        (Some p, None) \<Rightarrow> p \<noteq> 0 \<and> p \<in> set (posts d)
      | (None, Some r) \<Rightarrow> r \<noteq> 0 \<and> r \<in> set (map r_id (replies d))
      | _ \<Rightarrow> False)"

definition targets :: "int option \<Rightarrow> int option \<Rightarrow> vote \<Rightarrow> bool" where
  "targets post_id reply_id v =
     (case post_id of Some p \<Rightarrow> v_post_id v = Some p | None \<Rightarrow> v_reply_id v = reply_id)"


definition vote_write ::
  "vote option \<Rightarrow> db \<Rightarrow> nat \<Rightarrow> int \<Rightarrow> string \<Rightarrow> int option \<Rightarrow> int option \<Rightarrow> error + (vote option \<times> db)" where
  "vote_write existing d now user_id vote_type post_id reply_id =
        (case existing of
           Some existing_vote \<Rightarrow>
             if VoteType_value (v_vote_type existing_vote) = vote_type then
               Inr (None, d\<lparr>votes := filter (\<lambda>v. v_id v \<noteq> v_id existing_vote) (votes d)\<rparr>)
             else
               (case VoteType_of vote_type of
                  None \<Rightarrow> Inl (ValueError ([CHR 0x27] @ vote_type @ [CHR 0x27] @ '' is not a valid VoteType''))
                | Some t \<Rightarrow>
                    if \<not> list_ex (\<lambda>v. v_id v = v_id existing_vote) (votes d) then
                      Inl StaleDataError
                    else
                      let updated = existing_vote\<lparr>v_vote_type := t, v_updated_at := now\<rparr>
                      in Inr (Some updated,
                              d\<lparr>votes := map (\<lambda>v. if v_id v = v_id existing_vote
                                                    then v\<lparr>v_vote_type := t, v_updated_at := now\<rparr>
                                                    else v) (votes d)\<rparr>))
         | None \<Rightarrow>
             (case VoteType_of vote_type of
                None \<Rightarrow> Inl (ValueError ([CHR 0x27] @ vote_type @ [CHR 0x27] @ '' is not a valid VoteType''))
              | Some t \<Rightarrow>
                  let vote = \<lparr>v_id = new_id (map v_id (votes d)), v_user_id = user_id,
                              v_post_id = post_id, v_reply_id = reply_id, v_vote_type = t,
                              v_created_at = now, v_updated_at = now\<rparr>
                  in (case insert_vote d vote of
                        Inl e \<Rightarrow> Inl e
                      | Inr d' \<Rightarrow> Inr (Some vote, d'))))"

text \<open>
  The fresh store after user 1 has cast an upvote on post 1 at clock reading 5.
\<close>

definition raced_db :: db where
  "raced_db =
     fresh_db\<lparr>votes :=
       [\<lparr>v_id = 1, v_user_id = 1, v_post_id = Some 1, v_reply_id = None,
         v_vote_type = upvote, v_created_at = 5, v_updated_at = 5\<rparr>]\<rparr>"

text \<open>
  The row of a reply as the soft delete of the reply with key \<open>reply_id\<close> leaves it.
\<close>

definition mark_deleted :: "nat \<Rightarrow> nat \<Rightarrow> int \<Rightarrow> reply \<Rightarrow> reply" where
  "mark_deleted utcnow db_now reply_id x =
     (if r_id x = reply_id then x\<lparr>r_deleted_at := Some utcnow, r_updated_at := db_now\<rparr> else x)"

text \<open>
  The threaded listing as the specification words it. The direct children of a reply are
  the replies of the flat list that point to it, in the order of the list. The pre-order
  flattening of a reply is the reply followed by the flattenings of its direct children,
  one after the other.
\<close>

definition spec_children :: "reply list \<Rightarrow> reply \<Rightarrow> reply list" where
  "spec_children all_replies r = filter (\<lambda>c. r_parent_id c = Some (r_id r)) all_replies"

inductive spec_preorder :: "reply list \<Rightarrow> reply \<Rightarrow> reply list \<Rightarrow> bool"
  for all_replies :: "reply list" where
  node: "list_all2 (spec_preorder all_replies) (spec_children all_replies r) subs \<Longrightarrow>
         spec_preorder all_replies r (r # concat subs)"

text \<open>
  The replies of the flat list that are \<open>k\<close> levels below a root reply of the list.
\<close>

fun nodes_at :: "reply list \<Rightarrow> nat \<Rightarrow> reply set" where
  "nodes_at all_replies 0 = {r \<in> set all_replies. r_parent_id r = None}"
| "nodes_at all_replies (Suc k) =
     {c \<in> set all_replies. \<exists>r \<in> nodes_at all_replies k. r_parent_id c = Some (r_id r)}"

text \<open>
  A cache that holds, for every reply of the list, its direct children (and no entry
  when it has none).
\<close>

definition cache_of :: "reply list \<Rightarrow> (int \<rightharpoonup> reply list) \<Rightarrow> bool" where
  "cache_of xs cache \<longleftrightarrow>
     (\<forall>r \<in> set xs. cache (r_id r) =
        (if spec_children xs r = [] then None else Some (spec_children xs r)))"

text \<open>
  A reply of the list is attached when following parent pointers in the store leads, through
  replies of the list only, to a root reply of the list.
\<close>

inductive attached :: "db \<Rightarrow> reply list \<Rightarrow> reply \<Rightarrow> bool"
  for d :: db and xs :: "reply list" where
  root: "r \<in> set xs \<Longrightarrow> r_parent_id r = None \<Longrightarrow> attached d xs r"
| child: "c \<in> set xs \<Longrightarrow> Reply_parent d c = Some r \<Longrightarrow> attached d xs r \<Longrightarrow> attached d xs c"

text \<open>
  A post with two threads and an orphaned one: reply 1 has the children 3 (with child 4)
  and 5, reply 2 has none, and the soft-deleted reply 6 has the child 7 with child 8.
\<close>

definition tree_db :: db where
  "tree_db =
     \<lparr>posts = [1], users = [1],
      replies = map (\<lambda>(i, p, t, del).
                       \<lparr>r_id = i, r_content = ''text'', r_post_id = 1, r_author_id = 1,
                        r_parent_id = p, r_created_at = t, r_updated_at = t, r_deleted_at = del\<rparr>)
                  [(1, None, 1, None), (2, None, 2, None), (3, Some 1, 3, None),
                   (4, Some 3, 4, None), (5, Some 1, 5, None), (6, None, 6, Some 9),
                   (7, Some 6, 7, None), (8, Some 7, 8, None)],
      votes = []\<rparr>"

text \<open>A sequence of casts: clock reading, voter, polarity, post target, reply target.\<close>

datatype cast = Cast nat int string "int option" "int option"

fun apply_cast :: "db \<Rightarrow> cast \<Rightarrow> db" where
  "apply_cast d (Cast now user_id vote_type post_id reply_id) =
     (case create_vote d now user_id vote_type post_id reply_id of
        Inl e \<Rightarrow> d
      | Inr (v, d') \<Rightarrow> d')"

definition run_casts :: "db \<Rightarrow> cast list \<Rightarrow> db" where
  "run_casts d cs = foldl apply_cast d cs"

section \<open>The vote ledger: aggregation\<close>

lemma upvote_or_downvote: "(t \<noteq> upvote) = (t = downvote)"
  by (cases t) simp_all

lemma length_filter_polarity:
  "length (filter (\<lambda>v. P v \<and> v_vote_type v = upvote) vs)
   + length (filter (\<lambda>v. P v \<and> v_vote_type v = downvote) vs) = length (filter P vs)"
  by (induction vs) (auto simp: upvote_or_downvote)

text \<open>
  C3. For every store, also the one that any sequence of casts has produced, and every
  post or reply, the aggregation returns as upvote count the number of the current vote
  rows on the target with polarity upvote, as downvote count the number of those with
  polarity downvote, as net votes their difference and as total votes their sum, which is
  the number of the rows on the target. The result is a function of the current vote rows
  alone: a store with the same vote rows gives the same counts.
\<close>

theorem vote_counts_scan_rows:
  "(let vs = votes (run_casts d cs); c = get_vote_counts_for_post (run_casts d cs) p
    in upvote_count c =
         card {i. i < length vs \<and> v_post_id (vs ! i) = Some p \<and> v_vote_type (vs ! i) = upvote}
     \<and> downvote_count c =
         card {i. i < length vs \<and> v_post_id (vs ! i) = Some p \<and> v_vote_type (vs ! i) = downvote}
     \<and> net_votes c = int (upvote_count c) - int (downvote_count c)
     \<and> total_votes c = upvote_count c + downvote_count c
     \<and> total_votes c = card {i. i < length vs \<and> v_post_id (vs ! i) = Some p})
   \<and> (let vs = votes (run_casts d cs); c = get_vote_counts_for_reply (run_casts d cs) r
    in upvote_count c =
         card {i. i < length vs \<and> v_reply_id (vs ! i) = Some r \<and> v_vote_type (vs ! i) = upvote}
     \<and> downvote_count c =
         card {i. i < length vs \<and> v_reply_id (vs ! i) = Some r \<and> v_vote_type (vs ! i) = downvote}
     \<and> net_votes c = int (upvote_count c) - int (downvote_count c)
     \<and> total_votes c = upvote_count c + downvote_count c
     \<and> total_votes c = card {i. i < length vs \<and> v_reply_id (vs ! i) = Some r})
   \<and> get_vote_counts_for_post (d'\<lparr>votes := votes (run_casts d cs)\<rparr>) p =
       get_vote_counts_for_post (run_casts d cs) p
   \<and> get_vote_counts_for_reply (d'\<lparr>votes := votes (run_casts d cs)\<rparr>) r =
       get_vote_counts_for_reply (run_casts d cs) r"
proof -
  let ?vs = "votes (run_casts d cs)"
  have up: "length (filter (\<lambda>v. v_vote_type v = upvote) (filter P ?vs)) =
            card {i. i < length ?vs \<and> P (?vs ! i) \<and> v_vote_type (?vs ! i) = upvote}" for P
    by (simp add: length_filter_conv_card conj_commute)
  have down: "length (filter (\<lambda>v. v_vote_type v = downvote) (filter P ?vs)) =
            card {i. i < length ?vs \<and> P (?vs ! i) \<and> v_vote_type (?vs ! i) = downvote}" for P
    by (simp add: length_filter_conv_card conj_commute)
  have tot: "length (filter (\<lambda>v. v_vote_type v = upvote) (filter P ?vs))
             + length (filter (\<lambda>v. v_vote_type v = downvote) (filter P ?vs)) =
            card {i. i < length ?vs \<and> P (?vs ! i)}" for P
    using length_filter_polarity [of P ?vs]
    by (simp add: length_filter_conv_card conj_commute)
  show ?thesis
    unfolding get_vote_counts_for_post_def get_vote_counts_for_reply_def Let_def
    using up [of "\<lambda>v. v_post_id v = Some p"] down [of "\<lambda>v. v_post_id v = Some p"]
      tot [of "\<lambda>v. v_post_id v = Some p"]
      up [of "\<lambda>v. v_reply_id v = Some r"] down [of "\<lambda>v. v_reply_id v = Some r"]
      tot [of "\<lambda>v. v_reply_id v = Some r"]
    by simp
qed

text \<open>
  C4. The entity-level properties compare the row's enum member with the string
  \<open>VoteType.upvote.value\<close>, so they count nothing: after one upvote cast on post 1 of the
  fresh store the ledger aggregation reports one upvote and net votes 1, the properties
  of the post report 0 and 0; likewise for a reply.
\<close>

theorem entity_counts_differ_from_ledger:
  "(case create_vote fresh_db 5 1 ''upvote'' (Some 1) None of
      Inl e \<Rightarrow> False
    | Inr (v, d) \<Rightarrow>
        upvote_count (get_vote_counts_for_post d 1) = 1
        \<and> net_votes (get_vote_counts_for_post d 1) = 1
        \<and> Post_upvote_count d 1 = 0
        \<and> Post_net_votes d 1 = 0)
   \<and> (case create_vote chain_db 5 1 ''downvote'' None (Some 3) of
      Inl e \<Rightarrow> False
    | Inr (v, d) \<Rightarrow>
        downvote_count (get_vote_counts_for_reply d 3) = 1
        \<and> net_votes (get_vote_counts_for_reply d 3) = - 1
        \<and> Reply_downvote_count d 3 = 0
        \<and> Reply_net_votes d 3 = 0)"
  by code_simp

section \<open>The reply tree: the depth limit\<close>

text \<open>
  C2. In the thread of ten nested replies the reply with key 10 is at depth 9, and
  \<open>can_reply_to\<close> holds for it, since 9 is less than \<open>MAX_DEPTH = 10\<close>: creating a reply
  under it succeeds and yields a reply at depth 10.
\<close>

theorem create_reply_under_depth_9_parent:
  "depth 20 chain_db (last (replies chain_db)) = Some 9
   \<and> can_reply_to 20 chain_db (last (replies chain_db)) = Some True
   \<and> (case create_reply 20 chain_db 11
             \<lparr>rc_content = ''This should fail'', rc_author_id = 1, rc_parent_id = Some 10\<rparr> 1 of
        Some (Inr (r, d')) \<Rightarrow> r_parent_id r = Some 10 \<and> depth 20 d' r = Some 10
      | _ \<Rightarrow> False)"
  by code_simp

section \<open>The reply endpoints: a reply that is not there\<close>

text \<open>
  C7. For a key that no reply has (999 in the fresh store) and for the key of a
  soft-deleted reply (1 in the store whose only reply is deleted) the endpoints for the
  ancestors, the descendants and the siblings answer with the empty list, not with status
  404; only the thread endpoint answers with status 404.
\<close>

theorem navigation_endpoints_on_missing_reply:
  "get_reply_ancestors_endpoint n fresh_db 999 = Some (Inr [])
   \<and> get_reply_descendants_endpoint n fresh_db 999 = Some (Inr [])
   \<and> get_reply_siblings_endpoint fresh_db 999 = Inr []
   \<and> get_reply_thread_endpoint n fresh_db 999 = Some (Inl (HTTPException 404 ''Reply not found''))
   \<and> get_reply_ancestors_endpoint n deleted_db 1 = Some (Inr [])
   \<and> get_reply_descendants_endpoint n deleted_db 1 = Some (Inr [])
   \<and> get_reply_siblings_endpoint deleted_db 1 = Inr []
   \<and> get_reply_thread_endpoint n deleted_db 1 = Some (Inl (HTTPException 404 ''Reply not found''))"
  by (simp add: get_reply_ancestors_endpoint_def get_reply_ancestors_def
      get_reply_descendants_endpoint_def get_reply_descendants_def
      get_reply_siblings_endpoint_def get_reply_siblings_def
      get_reply_thread_endpoint_def get_reply_thread_def
      get_reply_by_id_def fresh_db_def deleted_db_def)

section \<open>The vote ledger: the toggle\<close>

subsection \<open>Keys and rows\<close>




lemma map_key_update:
  "distinct (map k xs) \<Longrightarrow> i < length xs \<Longrightarrow>
   map (\<lambda>v. if k v = k (xs ! i) then f v else v) xs = xs[i := f (xs ! i)]"
proof (rule nth_equalityI)
  show "length (map (\<lambda>v. if k v = k (xs ! i) then f v else v) xs) = length (xs[i := f (xs ! i)])"
    by simp
next
  fix j
  assume d: "distinct (map k xs)" and i: "i < length xs"
    and j: "j < length (map (\<lambda>v. if k v = k (xs ! i) then f v else v) xs)"
  then have jl: "j < length xs" by simp
  have "k (xs ! j) = k (xs ! i) \<longleftrightarrow> j = i"
    using d i jl by (metis distinct_conv_nth length_map nth_map)
  then show "map (\<lambda>v. if k v = k (xs ! i) then f v else v) xs ! j = xs[i := f (xs ! i)] ! j"
    using jl i by (simp add: nth_list_update)
qed

lemma valid_target_cases:
  assumes "valid_target d post_id reply_id"
  obtains p where "post_id = Some p" "reply_id = None" "p \<noteq> 0" "p \<in> set (posts d)"
  | r where "post_id = None" "reply_id = Some r" "r \<noteq> 0" "r \<in> set (map r_id (replies d))"
  using assms by (auto simp: valid_target_def split: option.splits)

lemma get_user_vote_valid:
  assumes "valid_target d post_id reply_id"
  shows "get_user_vote s u post_id reply_id =
         find (\<lambda>v. v_user_id v = u \<and> targets post_id reply_id v) (votes s)"
  using assms by (rule valid_target_cases) (simp_all add: get_user_vote_def targets_def)

lemma create_vote_checks_pass:
  assumes "valid_target d post_id reply_id"
  shows "create_vote_on d s now u (VoteType_value t) post_id reply_id =
     (case get_user_vote d u post_id reply_id of
           Some existing_vote \<Rightarrow>
             if v_vote_type existing_vote = t then
               Inr (None, s\<lparr>votes := filter (\<lambda>v. v_id v \<noteq> v_id existing_vote) (votes s)\<rparr>)
             else if \<not> list_ex (\<lambda>v. v_id v = v_id existing_vote) (votes s) then
               Inl StaleDataError
             else
                     Inr (Some (existing_vote\<lparr>v_vote_type := t, v_updated_at := now\<rparr>),
                            s\<lparr>votes := map (\<lambda>v. if v_id v = v_id existing_vote
                                                  then v\<lparr>v_vote_type := t, v_updated_at := now\<rparr>
                                                  else v) (votes s)\<rparr>)
         | None \<Rightarrow>
                  (case insert_vote s \<lparr>v_id = new_id (map v_id (votes s)), v_user_id = u,
                              v_post_id = post_id, v_reply_id = reply_id, v_vote_type = t,
                              v_created_at = now, v_updated_at = now\<rparr> of
                        Inl e \<Rightarrow> Inl e
                      | Inr d' \<Rightarrow> Inr (Some \<lparr>v_id = new_id (map v_id (votes s)), v_user_id = u,
                              v_post_id = post_id, v_reply_id = reply_id, v_vote_type = t,
                              v_created_at = now, v_updated_at = now\<rparr>, d')))"
proof -
  have vt: "VoteType_of (VoteType_value t) = Some t" by (cases t) (simp_all add: VoteType_of_def)
  have inj: "\<And>a. (VoteType_value a = VoteType_value t) = (a = t)"
    subgoal for a by (cases a; cases t) simp_all done
  have mem: "VoteType_value t \<in> set [VoteType_value upvote, VoteType_value downvote]"
    by (cases t) simp_all
  from assms show ?thesis
  proof (rule valid_target_cases)
    fix p assume "post_id = Some p" "reply_id = None" "p \<noteq> 0" "p \<in> set (posts d)"
    then show ?thesis using mem
      by (simp add: create_vote_on_def vt inj find_None_iff Let_def split: option.splits sum.splits)
  next
    fix r assume "post_id = None" "reply_id = Some r" "r \<noteq> 0" "r \<in> set (map r_id (replies d))"
    then show ?thesis using mem
      by (auto simp add: create_vote_on_def vt inj find_None_iff Let_def split: option.splits sum.splits)
  qed
qed







subsection \<open>What the checks read and what the write touches\<close>







lemma vote_write_frame:
  assumes "vote_write ex d now u vt post_id reply_id = Inr (v, d')"
  shows "replies d' = replies d \<and> posts d' = posts d \<and> users d' = users d"
  using assms
  by (auto simp: vote_write_def insert_vote_def Let_def split: option.splits if_splits)

lemma key_unique:
  assumes "distinct (map k xs)" "x \<in> set xs" "y \<in> set xs" "k y = k x"
  shows "y = x"
  using assms by (meson distinct_map inj_onD)



section \<open>The vote ledger: a cast that lost a race\<close>

text \<open>
  C8, as the code has it. \<open>create_vote\<close> has no retry. When the lookup saw no vote of the
  voter on the target and the store, by the time of the insert, holds one (a concurrent
  cast of the same voter has been committed), the uniqueness constraint rejects the insert
  and the rejection leaves \<open>create_vote\<close> as an \<open>IntegrityError\<close>, at its first
  occurrence; the endpoint turns it into status 500.
\<close>

theorem create_vote_no_retry:
  assumes "valid_target seen post_id reply_id"
    and "get_user_vote seen u post_id reply_id = None"
    and "get_user_vote d u post_id reply_id \<noteq> None"
  shows "create_vote_on seen d now u (VoteType_value t) post_id reply_id = Inl IntegrityError
       \<and> vote_result t (create_vote_on seen d now u (VoteType_value t) post_id reply_id) =
           Inl (HTTPException 500 ''Failed to process vote'')"
proof -
  obtain w where w: "w \<in> set (votes d)" "v_user_id w = u" "targets post_id reply_id w"
    using assms(3) get_user_vote_valid [OF assms(1), of d u]
    by (auto simp: find_None_iff)
  let ?v = "\<lparr>v_id = new_id (map v_id (votes d)), v_user_id = u,
              v_post_id = post_id, v_reply_id = reply_id, v_vote_type = t,
              v_created_at = now, v_updated_at = now\<rparr>"
  have "violates_unique (votes d) ?v"
    using assms(1) w
    by (rule_tac valid_target_cases [OF assms(1)])
       (auto simp: violates_unique_def list_ex_iff targets_def)
  then have "insert_vote d ?v = Inl IntegrityError"
    by (simp add: insert_vote_def)
  then have "create_vote_on seen d now u (VoteType_value t) post_id reply_id = Inl IntegrityError"
    using assms(2) by (simp add: create_vote_checks_pass [OF assms(1)])
  then show ?thesis by (simp add: vote_result_def)
qed

theorem create_vote_no_retry_witness:
  "valid_target fresh_db (Some 1) None
   \<and> get_user_vote fresh_db 1 (Some 1) None = None
   \<and> get_user_vote raced_db 1 (Some 1) None \<noteq> None
   \<and> create_vote_on fresh_db raced_db 6 1 ''upvote'' (Some 1) None = Inl IntegrityError"
proof -
  have h1: "valid_target fresh_db (Some 1) None"
    by (simp add: valid_target_def fresh_db_def)
  have h2: "get_user_vote fresh_db 1 (Some 1) None = None"
    by (simp add: get_user_vote_def fresh_db_def)
  have h3: "get_user_vote raced_db 1 (Some 1) None \<noteq> None"
    by (simp add: get_user_vote_def raced_db_def)
  show ?thesis
    using h1 h2 h3 create_vote_no_retry [OF h1 h2 h3, of 6 upvote] by simp
qed

text \<open>
  Two casts of an upvote by user 1 on post 1 that both read the fresh store: the first
  one commits its row, the second one's insert is rejected and the cast ends with the
  \<open>IntegrityError\<close>, where reading again and toggling would have removed the vote.
\<close>

theorem create_vote_retry_counterexample:
  "create_vote fresh_db 5 1 ''upvote'' (Some 1) None = Inr (Some (hd (votes raced_db)), raced_db)
   \<and> create_vote_on fresh_db raced_db 6 1 ''upvote'' (Some 1) None = Inl IntegrityError
   \<and> create_vote raced_db 6 1 ''upvote'' (Some 1) None = Inr (None, fresh_db)"
  by code_simp

section \<open>The vote ledger: a soft-deleted reply as target\<close>





section \<open>The reply tree: soft delete\<close>

subsection \<open>Rewriting the rows of one key\<close>

lemma find_map_same:
  "(\<And>x. P (f x) = P x) \<Longrightarrow> find P (map f xs) = map_option f (find P xs)"
  by (induction xs) simp_all

lemma insort_key_map_same:
  "(\<And>x. k (f x) = k x) \<Longrightarrow> insort_key k (f x) (map f ys) = map f (insort_key k x ys)"
  by (induction ys) simp_all

lemma sort_key_map_same:
  "(\<And>x. k (f x) = k x) \<Longrightarrow> sort_key k (map f xs) = map f (sort_key k xs)"
  by (induction xs) (simp_all add: insort_key_map_same)

lemma mark_deleted_fields [simp]:
  "r_id (mark_deleted t u i x) = r_id x"
  "r_parent_id (mark_deleted t u i x) = r_parent_id x"
  "r_created_at (mark_deleted t u i x) = r_created_at x"
  "r_post_id (mark_deleted t u i x) = r_post_id x"
  "r_content (mark_deleted t u i x) = r_content x"
  "r_author_id (mark_deleted t u i x) = r_author_id x"
  by (simp_all add: mark_deleted_def)

lemma mark_deleted_other: "r_id x \<noteq> i \<Longrightarrow> mark_deleted t u i x = x"
  by (simp add: mark_deleted_def)

lemma delete_reply_rows:
  assumes "get_reply_by_id d rid = Some a"
  shows "delete_reply d utcnow db_now rid =
           (True, d\<lparr>replies := map (mark_deleted utcnow db_now rid) (replies d)\<rparr>)"
proof -
  have "r_id a = rid" using assms by (auto simp: get_reply_by_id_def find_Some_iff)
  then show ?thesis using assms
    by (simp add: delete_reply_def mark_deleted_def [abs_def])
qed

lemma Reply_parent_marked:
  "Reply_parent (d\<lparr>replies := map (mark_deleted t u i) (replies d)\<rparr>) (mark_deleted t u i y) =
   map_option (mark_deleted t u i) (Reply_parent d y)"
  by (cases "r_parent_id y") (simp_all add: Reply_parent_def find_map_same)

lemma ancestors_loop_marked:
  "ancestors_loop n (d\<lparr>replies := map (mark_deleted t u i) (replies d)\<rparr>)
     (map_option (mark_deleted t u i) cur) (map (mark_deleted t u i) acc) =
   map_option (map (mark_deleted t u i)) (ancestors_loop n d cur acc)"
proof (induction n arbitrary: cur acc)
  case 0
  then show ?case by simp
next
  case (Suc n)
  show ?case
  proof (cases cur)
    case None
    then show ?thesis by simp
  next
    case (Some c)
    have "ancestors_loop n (d\<lparr>replies := map (mark_deleted t u i) (replies d)\<rparr>)
            (map_option (mark_deleted t u i) (Reply_parent d c))
            (map (mark_deleted t u i) (acc @ [c])) =
          map_option (map (mark_deleted t u i)) (ancestors_loop n d (Reply_parent d c) (acc @ [c]))"
      by (rule Suc.IH)
    then show ?thesis using Some by (simp add: Reply_parent_marked)
  qed
qed

lemma ancestors_marked:
  "ancestors n (d\<lparr>replies := map (mark_deleted t u i) (replies d)\<rparr>) (mark_deleted t u i y) =
   map_option (map (mark_deleted t u i)) (ancestors n d y)"
  using ancestors_loop_marked [of n t u i d "Reply_parent d y" "[]"]
  by (simp add: ancestors_def Reply_parent_marked)

lemma ancestors_loop_prefix:
  "ancestors_loop n d cur acc = Some xs \<Longrightarrow> \<exists>ys. xs = acc @ ys"
proof (induction n arbitrary: cur acc)
  case 0
  then show ?case by simp
next
  case (Suc n)
  show ?case
  proof (cases cur)
    case None
    then show ?thesis using Suc.prems by simp
  next
    case (Some c)
    then have "ancestors_loop n d (Reply_parent d c) (acc @ [c]) = Some xs"
      using Suc.prems by simp
    then obtain ys where "xs = (acc @ [c]) @ ys" using Suc.IH by blast
    then show ?thesis by simp
  qed
qed

lemma Reply_children_marked:
  "Reply_children (d\<lparr>replies := map (mark_deleted t u i) (replies d)\<rparr>) (mark_deleted t u i y) =
   map (mark_deleted t u i) (Reply_children d y)"
  by (simp add: Reply_children_def filter_map comp_def sort_key_map_same)

lemma post_replies_query_marked:
  "post_replies_query (d\<lparr>replies := map (mark_deleted t u i) (replies d)\<rparr>) p =
   filter (\<lambda>y. r_id y \<noteq> i) (post_replies_query d p)"
proof -
  have "filter (\<lambda>r. r_post_id r = p \<and> r_deleted_at r = None) (map (mark_deleted t u i) xs) =
        filter (\<lambda>y. r_id y \<noteq> i) (filter (\<lambda>r. r_post_id r = p \<and> r_deleted_at r = None) xs)" for xs
    by (induction xs) (auto simp: mark_deleted_def)
  then show ?thesis
    by (simp add: post_replies_query_def filter_sort)
qed

lemma get_reply_by_id_Some:
  assumes "get_reply_by_id d rid = Some a"
  shows "a \<in> set (replies d) \<and> r_id a = rid \<and> r_deleted_at a = None"
  using assms by (auto simp: get_reply_by_id_def find_Some_iff)

lemma find_by_key:
  assumes "distinct (map k xs)" "x \<in> set xs"
  shows "find (\<lambda>y. k y = k x) xs = Some x"
proof -
  obtain y where y: "find (\<lambda>y. k y = k x) xs = Some y"
    using assms(2) by (cases "find (\<lambda>y. k y = k x) xs") (auto simp: find_None_iff)
  then have "y \<in> set xs" "k y = k x" by (auto simp: find_Some_iff)
  then have "y = x" using key_unique [OF assms] by blast
  then show ?thesis using y by simp
qed

text \<open>
  C6, as the code has it. The soft delete of a reply that \<open>get_reply_by_id\<close> finds, in a
  store whose replies have distinct keys, succeeds and rewrites exactly the row of that
  reply, setting its \<open>deleted_at\<close> and, as every update of a reply row does, its
  \<open>updated_at\<close>; content and parent pointer stay. Every row with another key is still in
  the table, so no child is deleted, and the children of the reply are the rows they were.
  The flat listing of a post is the listing before without the deleted reply. For a
  reply found by \<open>get_reply_by_id\<close> whose parent is the deleted reply and whose ancestors
  were computed with the given fuel before, the ancestors computed after are the same
  rows as rewritten, the deleted reply first.
\<close>

theorem delete_reply_marks_one_row:
  assumes pk: "distinct (map r_id (replies d))"
    and a: "get_reply_by_id d rid = Some a"
    and res: "delete_reply d utcnow db_now rid = (ok, d')"
  shows "ok
       \<and> (\<exists>i < length (replies d). replies d ! i = a
            \<and> d' = d\<lparr>replies := (replies d)[i := a\<lparr>r_deleted_at := Some utcnow, r_updated_at := db_now\<rparr>]\<rparr>)
       \<and> (\<forall>c \<in> set (replies d). r_id c \<noteq> rid \<longrightarrow> c \<in> set (replies d'))
       \<and> Reply_children d' (a\<lparr>r_deleted_at := Some utcnow, r_updated_at := db_now\<rparr>) =
           map (mark_deleted utcnow db_now rid) (Reply_children d a)
       \<and> (\<forall>c \<in> set (Reply_children d a). r_id c \<noteq> rid \<longrightarrow>
             c \<in> set (Reply_children d' (a\<lparr>r_deleted_at := Some utcnow, r_updated_at := db_now\<rparr>)))
       \<and> post_replies_query d' p = filter (\<lambda>y. r_id y \<noteq> rid) (post_replies_query d p)
       \<and> (\<forall>y \<in> set (get_post_replies d' p skip limit). r_id y \<noteq> rid)
       \<and> (\<forall>cid c n xs.
             get_reply_by_id d cid = Some c \<and> cid \<noteq> rid \<and> r_parent_id c = Some rid
             \<and> get_reply_ancestors n d cid = Some xs \<longrightarrow>
             (\<exists>ys. xs = a # ys
                \<and> get_reply_ancestors n d' cid =
                    Some (a\<lparr>r_deleted_at := Some utcnow, r_updated_at := db_now\<rparr>
                          # map (mark_deleted utcnow db_now rid) ys)))"
proof -
  let ?m = "mark_deleted utcnow db_now rid"
  let ?a = "a\<lparr>r_deleted_at := Some utcnow, r_updated_at := db_now\<rparr>"
  have am: "a \<in> set (replies d)" and aid: "r_id a = rid" and alive: "r_deleted_at a = None"
    using get_reply_by_id_Some [OF a] by simp_all
  have ma: "?m a = ?a" using aid by (simp add: mark_deleted_def)
  have ok: "ok" and d': "d' = d\<lparr>replies := map ?m (replies d)\<rparr>"
    using res delete_reply_rows [OF a, of utcnow db_now] by simp_all
  obtain i where i: "i < length (replies d)" "replies d ! i = a"
    using am by (auto simp: in_set_conv_nth)
  have "map (\<lambda>v. if r_id v = r_id (replies d ! i)
                  then v\<lparr>r_deleted_at := Some utcnow, r_updated_at := db_now\<rparr> else v) (replies d)
        = (replies d)[i := (replies d ! i)\<lparr>r_deleted_at := Some utcnow, r_updated_at := db_now\<rparr>]"
    using map_key_update [OF pk i(1)] .
  then have upd: "map ?m (replies d) = (replies d)[i := ?a]"
    using i(2) aid by (simp add: mark_deleted_def [abs_def])
  have c1: "\<exists>i < length (replies d). replies d ! i = a \<and> d' = d\<lparr>replies := (replies d)[i := ?a]\<rparr>"
    using i upd d' by auto
  have c2: "\<forall>c \<in> set (replies d). r_id c \<noteq> rid \<longrightarrow> c \<in> set (replies d')"
  proof (intro ballI impI)
    fix c assume c: "c \<in> set (replies d)" "r_id c \<noteq> rid"
    have "?m c \<in> ?m ` set (replies d)" using c(1) by (rule imageI)
    moreover have "?m c = c" using c(2) by (rule mark_deleted_other)
    ultimately show "c \<in> set (replies d')" using d' by simp
  qed
  have c3: "Reply_children d' ?a = map ?m (Reply_children d a)"
    using Reply_children_marked [of utcnow db_now rid d a] ma d' by simp
  have c4: "\<forall>c \<in> set (Reply_children d a). r_id c \<noteq> rid \<longrightarrow> c \<in> set (Reply_children d' ?a)"
  proof (intro ballI impI)
    fix c assume c: "c \<in> set (Reply_children d a)" "r_id c \<noteq> rid"
    have "?m c \<in> ?m ` set (Reply_children d a)" using c(1) by (rule imageI)
    moreover have "?m c = c" using c(2) by (rule mark_deleted_other)
    ultimately show "c \<in> set (Reply_children d' ?a)" using c3 by simp
  qed
  have c5: "post_replies_query d' p = filter (\<lambda>y. r_id y \<noteq> rid) (post_replies_query d p)"
    using post_replies_query_marked [of utcnow db_now rid d p] d' by simp
  have c6: "\<forall>y \<in> set (get_post_replies d' p skip limit). r_id y \<noteq> rid"
  proof
    fix y assume "y \<in> set (get_post_replies d' p skip limit)"
    then have "y \<in> set (post_replies_query d' p)"
      by (auto simp: get_post_replies_def paginate_def dest: in_set_takeD in_set_dropD)
    then show "r_id y \<noteq> rid" using c5 by simp
  qed
  have c7: "\<forall>cid c n xs.
             get_reply_by_id d cid = Some c \<and> cid \<noteq> rid \<and> r_parent_id c = Some rid
             \<and> get_reply_ancestors n d cid = Some xs \<longrightarrow>
             (\<exists>ys. xs = a # ys \<and> get_reply_ancestors n d' cid = Some (?a # map ?m ys))"
  proof (intro allI impI)
    fix cid c n xs
    assume h: "get_reply_by_id d cid = Some c \<and> cid \<noteq> rid \<and> r_parent_id c = Some rid
             \<and> get_reply_ancestors n d cid = Some xs"
    then have c: "get_reply_by_id d cid = Some c" and ne: "cid \<noteq> rid"
      and par: "r_parent_id c = Some rid" and anc: "ancestors n d c = Some xs"
      by (auto simp: get_reply_ancestors_def)
    have cm: "c \<in> set (replies d)" and cid: "r_id c = cid" and clive: "r_deleted_at c = None"
      using get_reply_by_id_Some [OF c] by simp_all
    have mc: "?m c = c" using cid ne by (simp add: mark_deleted_other)
    have "find (\<lambda>r. r_id r = cid \<and> r_deleted_at r = None) (map ?m rs) =
          find (\<lambda>r. r_id r = cid \<and> r_deleted_at r = None) rs" for rs
      using ne by (induction rs) (auto simp: mark_deleted_def)
    then have c': "get_reply_by_id d' cid = Some c"
      using c d' by (simp add: get_reply_by_id_def)
    have pa: "Reply_parent d c = Some a"
      using par find_by_key [OF pk am] aid by (simp add: Reply_parent_def)
    obtain m where n: "n = Suc m" using anc by (cases n) (simp_all add: ancestors_def)
    have "ancestors_loop m d (Reply_parent d a) [a] = Some xs"
      using anc pa n by (simp add: ancestors_def)
    then obtain ys where ys: "xs = a # ys" using ancestors_loop_prefix by fastforce
    have "ancestors n d' c = map_option (map ?m) (ancestors n d c)"
      using ancestors_marked [of n utcnow db_now rid d c] mc d' by simp
    then have "get_reply_ancestors n d' cid = Some (?a # map ?m ys)"
      using c' anc ys ma by (simp add: get_reply_ancestors_def)
    then show "\<exists>ys. xs = a # ys \<and> get_reply_ancestors n d' cid = Some (?a # map ?m ys)"
      using ys by blast
  qed
  show ?thesis using ok c1 c2 c3 c4 c5 c6 c7 by blast
qed

theorem delete_reply_marks_one_row_witness:
  "distinct (map r_id (replies chain_db))
   \<and> get_reply_by_id chain_db 1 = Some (hd (replies chain_db))
   \<and> get_reply_by_id chain_db 2 = Some (replies chain_db ! 1)
   \<and> get_reply_ancestors 5 chain_db 2 = Some [hd (replies chain_db)]
   \<and> get_reply_ancestors 5 (snd (delete_reply chain_db 50 51 1)) 2 =
       Some [(hd (replies chain_db))\<lparr>r_deleted_at := Some 50, r_updated_at := 51\<rparr>]
   \<and> map r_id (post_replies_query (snd (delete_reply chain_db 50 51 1)) 1) =
       [2, 3, 4, 5, 6, 7, 8, 9, 10]"
proof -
  have pk: "distinct (map r_id (replies chain_db))" by (simp add: chain_db_def)
  have a: "get_reply_by_id chain_db 1 = Some (hd (replies chain_db))" by code_simp
  have res: "delete_reply chain_db 50 51 1 =
               (fst (delete_reply chain_db 50 51 1), snd (delete_reply chain_db 50 51 1))"
    by simp
  have c: "get_reply_by_id chain_db 2 = Some (replies chain_db ! 1)" by code_simp
  have p: "r_parent_id (replies chain_db ! 1) = Some 1" by code_simp
  have anc: "get_reply_ancestors 5 chain_db 2 = Some [hd (replies chain_db)]" by code_simp
  note inst = delete_reply_marks_one_row [OF pk a res, of 1 0 100]
  note listing = inst [THEN conjunct2, THEN conjunct2, THEN conjunct2, THEN conjunct2,
      THEN conjunct2, THEN conjunct1]
  have rest: "map r_id (filter (\<lambda>y. r_id y \<noteq> 1) (post_replies_query chain_db 1)) =
       [2, 3, 4, 5, 6, 7, 8, 9, 10]"
    by code_simp
  note edges = inst [THEN conjunct2, THEN conjunct2, THEN conjunct2, THEN conjunct2,
      THEN conjunct2, THEN conjunct2, THEN conjunct2, rule_format,
      of 2 "replies chain_db ! 1" 5 "[hd (replies chain_db)]"]
  have "get_reply_by_id chain_db 2 = Some (replies chain_db ! 1) \<and> (2::int) \<noteq> 1
        \<and> r_parent_id (replies chain_db ! 1) = Some 1
        \<and> get_reply_ancestors 5 chain_db 2 = Some [hd (replies chain_db)]"
    using c p anc by simp
  then have "\<exists>ys. [hd (replies chain_db)] = hd (replies chain_db) # ys
          \<and> get_reply_ancestors 5 (snd (delete_reply chain_db 50 51 1)) 2 =
              Some ((hd (replies chain_db))\<lparr>r_deleted_at := Some 50, r_updated_at := 51\<rparr>
                    # map (mark_deleted 50 51 1) ys)"
    by (rule edges)
  then have e: "get_reply_ancestors 5 (snd (delete_reply chain_db 50 51 1)) 2 =
       Some [(hd (replies chain_db))\<lparr>r_deleted_at := Some 50, r_updated_at := 51\<rparr>]"
    by auto
  show ?thesis
    using pk a c anc e rest by (simp add: listing)
qed

text \<open>
  Soft-deleting reply 1 of the thread of ten at application time 50 and store time 51
  succeeds and leaves the row with \<open>deleted_at = 50\<close> and with \<open>updated_at = 51\<close>, which was 1.
\<close>

theorem delete_reply_counterexample:
  "fst (delete_reply chain_db 50 51 1)
   \<and> r_id (hd (replies chain_db)) = 1
   \<and> r_updated_at (hd (replies chain_db)) = 1
   \<and> r_id (hd (replies (snd (delete_reply chain_db 50 51 1)))) = 1
   \<and> r_deleted_at (hd (replies (snd (delete_reply chain_db 50 51 1)))) = Some 50
   \<and> r_updated_at (hd (replies (snd (delete_reply chain_db 50 51 1)))) = 51"
  by code_simp

section \<open>The reply tree: the threaded listing\<close>

subsection \<open>The hierarchy that the loop builds\<close>

lemma reply_dict_fold:
  "fold (\<lambda>r m. m(r_id r \<mapsto> r)) xs m0 p = Some r \<Longrightarrow>
   (r \<in> set xs \<and> r_id r = p) \<or> m0 p = Some r"
proof (induction xs arbitrary: m0)
  case Nil
  then show ?case by simp
next
  case (Cons x xs)
  from Cons.prems have "fold (\<lambda>r m. m(r_id r \<mapsto> r)) xs (m0(r_id x \<mapsto> x)) p = Some r"
    by (simp only: fold_simps)
  then have "(r \<in> set xs \<and> r_id r = p) \<or> (m0(r_id x \<mapsto> x)) p = Some r" by (rule Cons.IH)
  then show ?case by (auto split: if_splits)
qed

lemma reply_dict_fold_dom:
  "dom (fold (\<lambda>r m. m(r_id r \<mapsto> r)) xs m0) = dom m0 \<union> r_id ` set xs"
  by (induction xs arbitrary: m0) auto

lemma reply_dict_key: "reply_dict xs p = Some r \<Longrightarrow> r \<in> set xs \<and> r_id r = p"
  using reply_dict_fold [of xs Map.empty p r] by (simp add: reply_dict_def)

lemma reply_dict_dom: "dom (reply_dict xs) = r_id ` set xs"
  by (simp add: reply_dict_def reply_dict_fold_dom)

lemma hierarchy_fold_roots:
  "fst (fold (hierarchy_step rd) xs st) = fst st @ filter (\<lambda>r. r_parent_id r = None) xs"
proof (induction xs arbitrary: st)
  case Nil
  then show ?case by simp
next
  case (Cons x xs)
  have "fst (hierarchy_step rd x st) = fst st @ filter (\<lambda>r. r_parent_id r = None) [x]"
    by (simp add: hierarchy_step_def split: option.splits)
  then show ?case using Cons.IH [of "hierarchy_step rd x st"] by simp
qed

lemma hierarchy_step_cache:
  assumes "\<forall>p r. rd p = Some r \<longrightarrow> r_id r = p"
  shows "snd (hierarchy_step rd x st) p =
     (if r_parent_id x = Some p \<and> p \<in> dom rd
      then Some ((case snd st p of None \<Rightarrow> [] | Some cs \<Rightarrow> cs) @ [x])
      else snd st p)"
proof (cases "r_parent_id x")
  case None
  then show ?thesis by (simp add: hierarchy_step_def)
next
  case (Some q)
  show ?thesis
  proof (cases "rd q")
    case None
    then show ?thesis using Some by (auto simp: hierarchy_step_def)
  next
    case (Some parent)
    then have "r_id parent = q" using assms by blast
    then show ?thesis using Some \<open>r_parent_id x = Some q\<close>
      by (auto simp: hierarchy_step_def)
  qed
qed

lemma hierarchy_fold_cache:
  assumes "\<forall>p r. rd p = Some r \<longrightarrow> r_id r = p"
  shows "(case snd (fold (hierarchy_step rd) xs st) p of None \<Rightarrow> [] | Some cs \<Rightarrow> cs) =
         (case snd st p of None \<Rightarrow> [] | Some cs \<Rightarrow> cs)
         @ (if p \<in> dom rd then filter (\<lambda>c. r_parent_id c = Some p) xs else [])"
proof (induction xs arbitrary: st)
  case Nil
  show ?case by simp
next
  case (Cons x xs)
  have "(case snd (fold (hierarchy_step rd) (x # xs) st) p of None \<Rightarrow> [] | Some cs \<Rightarrow> cs) =
        (case snd (hierarchy_step rd x st) p of None \<Rightarrow> [] | Some cs \<Rightarrow> cs)
        @ (if p \<in> dom rd then filter (\<lambda>c. r_parent_id c = Some p) xs else [])"
    using Cons.IH [of "hierarchy_step rd x st"] by simp
  also have "(case snd (hierarchy_step rd x st) p of None \<Rightarrow> [] | Some cs \<Rightarrow> cs) =
        (case snd st p of None \<Rightarrow> [] | Some cs \<Rightarrow> cs)
        @ (if r_parent_id x = Some p \<and> p \<in> dom rd then [x] else [])"
    by (simp add: hierarchy_step_cache [OF assms])
  finally show ?case by simp
qed

lemma hierarchy_fold_cache_None:
  assumes "\<forall>p r. rd p = Some r \<longrightarrow> r_id r = p"
  shows "snd (fold (hierarchy_step rd) xs st) p = None \<longleftrightarrow>
         snd st p = None \<and> (p \<in> dom rd \<longrightarrow> filter (\<lambda>c. r_parent_id c = Some p) xs = [])"
proof (induction xs arbitrary: st)
  case Nil
  show ?case by simp
next
  case (Cons x xs)
  have "snd (fold (hierarchy_step rd) (x # xs) st) p = None \<longleftrightarrow>
        snd (hierarchy_step rd x st) p = None
        \<and> (p \<in> dom rd \<longrightarrow> filter (\<lambda>c. r_parent_id c = Some p) xs = [])"
    using Cons.IH [of "hierarchy_step rd x st"] by simp
  also have "snd (hierarchy_step rd x st) p = None \<longleftrightarrow>
        snd st p = None \<and> \<not> (r_parent_id x = Some p \<and> p \<in> dom rd)"
    by (simp add: hierarchy_step_cache [OF assms])
  finally show ?case by auto
qed

lemma thread_hierarchy_roots:
  "fst (thread_hierarchy xs) = filter (\<lambda>r. r_parent_id r = None) xs"
  by (simp add: thread_hierarchy_def hierarchy_fold_roots)

lemma thread_hierarchy_cache:
  assumes "r \<in> set xs"
  shows "snd (thread_hierarchy xs) (r_id r) =
           (if spec_children xs r = [] then None else Some (spec_children xs r))"
proof -
  have key: "\<forall>p r. reply_dict xs p = Some r \<longrightarrow> r_id r = p"
    using reply_dict_key by blast
  have d: "r_id r \<in> dom (reply_dict xs)" using assms by (simp add: reply_dict_dom)
  note a = hierarchy_fold_cache [OF key, where xs = xs and st = "([], Map.empty)" and p = "r_id r"]
  note b = hierarchy_fold_cache_None [OF key, where xs = xs and st = "([], Map.empty)" and p = "r_id r"]
  show ?thesis
  proof (cases "snd (thread_hierarchy xs) (r_id r)")
    case None
    then show ?thesis using b d by (simp add: thread_hierarchy_def spec_children_def)
  next
    case (Some cs)
    then have "cs = spec_children xs r" using a d
      by (simp add: thread_hierarchy_def spec_children_def)
    moreover have "spec_children xs r \<noteq> []" using Some b d
      by (auto simp: thread_hierarchy_def spec_children_def)
    ultimately show ?thesis using Some by simp
  qed
qed

subsection \<open>Flattening is the pre-order\<close>

lemma cache_of_thread_hierarchy: "cache_of xs (snd (thread_hierarchy xs))"
  by (simp add: cache_of_def thread_hierarchy_cache)

lemma spec_children_subset: "set (spec_children xs r) \<subseteq> set xs"
  by (auto simp: spec_children_def)

lemma flatten_preorder:
  assumes "cache_of xs cache"
  shows "flatten_replies n cache rs = Some out \<Longrightarrow> set rs \<subseteq> set xs \<Longrightarrow>
         \<exists>subs. list_all2 (spec_preorder xs) rs subs \<and> out = concat subs"
proof (induction n arbitrary: rs out)
  case 0
  then show ?case by simp
next
  case (Suc n)
  from Suc.prems show ?case
  proof (induction rs arbitrary: out)
    case Nil
    then show ?case by simp
  next
    case (Cons r rs)
    have rin: "r \<in> set xs" and rsin: "set rs \<subseteq> set xs" using Cons.prems(2) by simp_all
    have c: "cache (r_id r) = (if spec_children xs r = [] then None else Some (spec_children xs r))"
      using assms rin by (simp add: cache_of_def)
    show ?case
    proof (cases "spec_children xs r = []")
      case True
      then have "cache (r_id r) = None" using c by simp
      then obtain rest where rest: "flatten_replies (Suc n) cache rs = Some rest" "out = r # rest"
        using Cons.prems(1) by auto
      obtain subs where subs: "list_all2 (spec_preorder xs) rs subs" "rest = concat subs"
        using Cons.IH [OF rest(1) rsin] by blast
      have "list_all2 (spec_preorder xs) (spec_children xs r) []" using True by simp
      then have "spec_preorder xs r (r # concat [])" by (rule spec_preorder.node)
      then have "list_all2 (spec_preorder xs) (r # rs) ([r] # subs)" using subs(1) by simp
      moreover have "out = concat ([r] # subs)" using rest(2) subs(2) by simp
      ultimately show ?thesis by blast
    next
      case False
      then have cs: "cache (r_id r) = Some (spec_children xs r)" using c by simp
      then obtain sub rest where sub: "flatten_replies n cache (spec_children xs r) = Some sub"
        and rest: "flatten_replies (Suc n) cache rs = Some rest" and out: "out = r # sub @ rest"
        using Cons.prems(1) by (auto split: option.splits)
      obtain subs1 where subs1: "list_all2 (spec_preorder xs) (spec_children xs r) subs1"
        "sub = concat subs1"
        using Suc.IH [OF sub spec_children_subset] by blast
      obtain subs where subs: "list_all2 (spec_preorder xs) rs subs" "rest = concat subs"
        using Cons.IH [OF rest rsin] by blast
      have "spec_preorder xs r (r # concat subs1)" using subs1(1) by (rule spec_preorder.node)
      then have "list_all2 (spec_preorder xs) (r # rs) ((r # concat subs1) # subs)"
        using subs(1) by simp
      moreover have "out = concat ((r # concat subs1) # subs)" using out subs1(2) subs(2) by simp
      ultimately show ?thesis by blast
    qed
  qed
qed

lemma list_all2_unique:
  "list_all2 (\<lambda>x y. P x y \<and> (\<forall>z. P x z \<longrightarrow> y = z)) xs ys \<Longrightarrow> list_all2 P xs zs \<Longrightarrow> ys = zs"
proof (induction arbitrary: zs rule: list_all2_induct)
  case Nil
  then show ?case by simp
next
  case (Cons x xs y ys)
  from Cons.prems obtain z zs' where zs: "zs = z # zs'" "P x z" "list_all2 P xs zs'"
    by (auto simp: list_all2_Cons1)
  have "y = z" using Cons.hyps(1) zs(2) by blast
  moreover have "ys = zs'" using zs(3) by (rule Cons.IH)
  ultimately show ?case using zs(1) by simp
qed

lemma spec_preorder_unique:
  "spec_preorder xs r a \<Longrightarrow> spec_preorder xs r b \<Longrightarrow> a = b"
proof (induction arbitrary: b rule: spec_preorder.induct)
  case (node r subs)
  from node.prems obtain subs' where b: "b = r # concat subs'"
    and l: "list_all2 (spec_preorder xs) (spec_children xs r) subs'"
    by (cases rule: spec_preorder.cases) blast
  have "list_all2 (\<lambda>c s. spec_preorder xs c s \<and> (\<forall>z. spec_preorder xs c z \<longrightarrow> s = z))
          (spec_children xs r) subs"
    using node.IH by (rule list_all2_mono) blast
  then have "subs = subs'" using l by (rule list_all2_unique)
  then show ?case using b by simp
qed

lemma spec_preorder_list_unique:
  assumes "list_all2 (spec_preorder xs) rs a" "list_all2 (spec_preorder xs) rs b"
  shows "a = b"
proof -
  have "list_all2 (\<lambda>c s. spec_preorder xs c s \<and> (\<forall>z. spec_preorder xs c z \<longrightarrow> s = z)) rs a"
    using assms(1) by (rule list_all2_mono) (blast intro: spec_preorder_unique)
  then show ?thesis using assms(2) by (rule list_all2_unique)
qed

subsection \<open>Flattening returns\<close>

lemma nodes_at_subset: "nodes_at xs k \<subseteq> set xs"
  by (cases k) auto

lemma nodes_at_level:
  assumes "distinct (map r_id xs)"
  shows "c \<in> nodes_at xs j \<Longrightarrow> c \<in> nodes_at xs k \<Longrightarrow> j = k"
proof (induction j arbitrary: k c)
  case 0
  then show ?case by (cases k) auto
next
  case (Suc j)
  then obtain r where r: "r \<in> nodes_at xs j" "r_parent_id c = Some (r_id r)" by auto
  show ?case
  proof (cases k)
    case 0
    then show ?thesis using Suc.prems(2) r(2) by simp
  next
    case (Suc k')
    then obtain r' where r': "r' \<in> nodes_at xs k'" "r_parent_id c = Some (r_id r')"
      using Suc.prems(2) by auto
    have "r \<in> set xs" "r' \<in> set xs" using r(1) r'(1) nodes_at_subset by blast+
    moreover have "r_id r' = r_id r" using r(2) r'(2) by simp
    ultimately have "r' = r" using key_unique [OF assms] by blast
    then have "j = k'" using Suc.IH [OF r(1)] r'(1) by simp
    then show ?thesis using Suc by simp
  qed
qed

lemma flatten_None_child:
  "flatten_replies (Suc n) cache rs = None \<Longrightarrow>
   \<exists>r \<in> set rs. \<exists>cs. cache (r_id r) = Some cs \<and> flatten_replies n cache cs = None"
proof (induction rs)
  case Nil
  then show ?case by simp
next
  case (Cons r rs)
  show ?case
  proof (cases "cache (r_id r)")
    case None
    then have "flatten_replies (Suc n) cache rs = None" using Cons.prems by simp
    then show ?thesis using Cons.IH by auto
  next
    case (Some cs)
    show ?thesis
    proof (cases "flatten_replies n cache cs")
      case None
      then show ?thesis using Some by auto
    next
      case S: (Some sub)
      then have "flatten_replies (Suc n) cache rs = None" using Cons.prems Some by simp
      then show ?thesis using Cons.IH by auto
    qed
  qed
qed

lemma flatten_None_levels:
  assumes "cache_of xs cache" and "distinct (map r_id xs)"
  shows "flatten_replies n cache rs = None \<Longrightarrow> set rs \<subseteq> nodes_at xs k \<Longrightarrow>
         \<exists>S. S \<subseteq> set xs \<and> n \<le> card S \<and> (\<forall>x \<in> S. \<exists>j \<ge> k. x \<in> nodes_at xs j)"
proof (induction n arbitrary: rs k)
  case 0
  show ?case by (rule exI [of _ "{}"]) simp
next
  case (Suc n)
  obtain r cs where r: "r \<in> set rs" and cs: "cache (r_id r) = Some cs"
    and none: "flatten_replies n cache cs = None"
    using flatten_None_child [OF Suc.prems(1)] by blast
  have rk: "r \<in> nodes_at xs k" using r Suc.prems(2) by blast
  then have rin: "r \<in> set xs" using nodes_at_subset by blast
  have "cs = spec_children xs r" using assms(1) rin cs by (auto simp: cache_of_def split: if_splits)
  then have sub: "set cs \<subseteq> nodes_at xs (Suc k)" using rk by (auto simp: spec_children_def)
  obtain S where S: "S \<subseteq> set xs" "n \<le> card S" "\<forall>x \<in> S. \<exists>j \<ge> Suc k. x \<in> nodes_at xs j"
    using Suc.IH [OF none sub] by (elim exE conjE)
  have "r \<notin> S"
  proof
    assume "r \<in> S"
    then obtain j where "j \<ge> Suc k" "r \<in> nodes_at xs j" using S(3) by blast
    then show False using nodes_at_level [OF assms(2) rk, of j] by simp
  qed
  moreover have "finite S" using S(1) finite_subset by blast
  ultimately have "card (insert r S) = Suc (card S)" by simp
  then have "Suc n \<le> card (insert r S)" using S(2) by simp
  moreover have "insert r S \<subseteq> set xs" using rin S(1) by simp
  moreover have "\<forall>x \<in> insert r S. \<exists>j \<ge> k. x \<in> nodes_at xs j"
  proof
    fix x assume "x \<in> insert r S"
    then consider "x = r" | "x \<in> S" by blast
    then show "\<exists>j \<ge> k. x \<in> nodes_at xs j"
    proof cases
      case 1
      then show ?thesis using rk by blast
    next
      case 2
      then obtain j where "j \<ge> Suc k" "x \<in> nodes_at xs j" using S(3) by blast
      then have "j \<ge> k" "x \<in> nodes_at xs j" by simp_all
      then show ?thesis by blast
    qed
  qed
  ultimately show ?case by (intro exI [of _ "insert r S"] conjI)
qed

lemma flatten_terminates:
  assumes "cache_of xs cache" and "distinct (map r_id xs)" and "length xs < n"
  shows "flatten_replies n cache (filter (\<lambda>r. r_parent_id r = None) xs) \<noteq> None"
proof
  assume a: "flatten_replies n cache (filter (\<lambda>r. r_parent_id r = None) xs) = None"
  have b: "set (filter (\<lambda>r. r_parent_id r = None) xs) \<subseteq> nodes_at xs 0" by auto
  obtain S where S: "S \<subseteq> set xs" "n \<le> card S"
    using flatten_None_levels [OF assms(1,2) a b] by (elim exE conjE)
  have "card S \<le> card (set xs)" using S(1) by (simp add: card_mono)
  also have "\<dots> \<le> length xs" by (rule card_length)
  finally show False using S(2) assms(3) by simp
qed

lemma post_replies_query_distinct:
  assumes "distinct (map r_id (replies d))"
  shows "distinct (map r_id (post_replies_query d p))"
proof -
  have "distinct (map r_id (filter (\<lambda>r. r_post_id r = p \<and> r_deleted_at r = None) (replies d)))"
    using assms by (rule distinct_map_filter)
  then show ?thesis
    by (simp add: post_replies_query_def distinct_map)
qed

lemma attached_member: "attached d xs r \<Longrightarrow> r \<in> set xs"
  by (cases rule: attached.cases) simp_all

lemma attached_parent:
  assumes "attached d xs y" "Reply_parent d y = Some p"
  shows "attached d xs p"
  using assms by (cases rule: attached.cases) (simp_all add: Reply_parent_def)

lemma list_all2_set2: "list_all2 P xs ys \<Longrightarrow> y \<in> set ys \<Longrightarrow> \<exists>x \<in> set xs. P x y"
  by (induction rule: list_all2_induct) auto

lemma spec_preorder_attached:
  assumes pk: "distinct (map r_id (replies d))" and sub: "set xs \<subseteq> set (replies d)"
  shows "spec_preorder xs r out \<Longrightarrow> attached d xs r \<Longrightarrow> x \<in> set out \<Longrightarrow> attached d xs x"
proof (induction arbitrary: x rule: spec_preorder.induct)
  case (node r subs)
  show ?case
  proof (cases "x = r")
    case True
    then show ?thesis using node.prems(1) by simp
  next
    case False
    then obtain s where s: "s \<in> set subs" "x \<in> set s" using node.prems(2) by auto
    obtain c where c: "c \<in> set (spec_children xs r)"
      and ih: "attached d xs c \<Longrightarrow> x \<in> set s \<Longrightarrow> attached d xs x"
      using list_all2_set2 [OF node.IH s(1)] by blast
    have cin: "c \<in> set xs" and cp: "r_parent_id c = Some (r_id r)"
      using c by (simp_all add: spec_children_def)
    have "r \<in> set (replies d)" using attached_member [OF node.prems(1)] sub by blast
    then have "find (\<lambda>y. r_id y = r_id r) (replies d) = Some r" by (rule find_by_key [OF pk])
    then have "Reply_parent d c = Some r" using cp by (simp add: Reply_parent_def)
    with cin have "attached d xs c" using node.prems(1) by (rule attached.child)
    then show ?thesis using s(2) by (rule ih)
  qed
qed

lemma ancestors_loop_attached:
  "attached d xs y \<Longrightarrow> ancestors_loop n d (Reply_parent d y) acc = Some as \<Longrightarrow>
   \<forall>a \<in> set acc. attached d xs a \<Longrightarrow> a \<in> set as \<Longrightarrow> attached d xs a"
proof (induction n arbitrary: y acc)
  case 0
  then show ?case by simp
next
  case (Suc n)
  show ?case
  proof (cases "Reply_parent d y")
    case None
    then show ?thesis using Suc.prems by simp
  next
    case (Some p)
    have ap: "attached d xs p" using Suc.prems(1) Some by (rule attached_parent)
    have loop: "ancestors_loop n d (Reply_parent d p) (acc @ [p]) = Some as"
      using Suc.prems(2) Some by simp
    have "\<forall>a \<in> set (acc @ [p]). attached d xs a" using Suc.prems(3) ap by simp
    then show ?thesis using Suc.IH [OF ap loop] Suc.prems(4) by blast
  qed
qed

lemma thread_hierarchy_cache_key:
  "(case snd (thread_hierarchy xs) p of None \<Rightarrow> [] | Some cs \<Rightarrow> cs) =
   (if p \<in> r_id ` set xs then filter (\<lambda>c. r_parent_id c = Some p) xs else [])"
proof -
  have key: "\<forall>p r. reply_dict xs p = Some r \<longrightarrow> r_id r = p"
    using reply_dict_key by blast
  show ?thesis
    using hierarchy_fold_cache [OF key, where xs = xs and st = "([], Map.empty)" and p = p]
    by (simp add: thread_hierarchy_def reply_dict_dom)
qed

lemma post_replies_query_set:
  "set (post_replies_query d p) =
   {r \<in> set (replies d). r_post_id r = p \<and> r_deleted_at r = None}"
  by (auto simp: post_replies_query_def)

lemma threaded_Some:
  assumes pk: "distinct (map r_id (replies d))"
    and fuel: "length (post_replies_query d p) < n"
  shows "\<exists>subs. list_all2 (spec_preorder (post_replies_query d p))
                  (filter (\<lambda>r. r_parent_id r = None) (post_replies_query d p)) subs
             \<and> get_post_replies_threaded n d p skip limit = Some (paginate skip limit (concat subs))"
proof -
  let ?xs = "post_replies_query d p"
  let ?roots = "filter (\<lambda>r. r_parent_id r = None) ?xs"
  let ?cache = "snd (thread_hierarchy ?xs)"
  have c: "cache_of ?xs ?cache" by (rule cache_of_thread_hierarchy)
  have dk: "distinct (map r_id ?xs)" using pk by (rule post_replies_query_distinct)
  have "flatten_replies n ?cache ?roots \<noteq> None" using c dk fuel by (rule flatten_terminates)
  then obtain out where out: "flatten_replies n ?cache ?roots = Some out" by blast
  have "set ?roots \<subseteq> set ?xs" by auto
  then obtain subs where subs: "list_all2 (spec_preorder ?xs) ?roots subs" "out = concat subs"
    using flatten_preorder [OF c out] by blast
  have "get_post_replies_threaded n d p skip limit = Some (paginate skip limit out)"
    using out by (simp add: get_post_replies_threaded_def Let_def split_beta thread_hierarchy_roots)
  then show ?thesis using subs by blast
qed

subsection \<open>The example tree\<close>

lemma tree_db_listing:
  "map r_id (post_replies_query tree_db 1) = [1, 2, 3, 4, 5, 7, 8]"
  by (simp add: tree_db_def post_replies_query_def)

lemma tree_db_threaded:
  "map_option (map r_id) (get_post_replies_threaded 8 tree_db 1 0 100) = Some [1, 3, 4, 5, 2]"
  by (simp add: tree_db_def post_replies_query_def get_post_replies_threaded_def thread_hierarchy_def
      reply_dict_def hierarchy_step_def paginate_def eval_nat_numeral)

lemma tree_db_threaded_page:
  "map_option (map r_id) (get_post_replies_threaded 8 tree_db 1 1 3) = Some [3, 4, 5]"
  by (simp add: tree_db_def post_replies_query_def get_post_replies_threaded_def thread_hierarchy_def
      reply_dict_def hierarchy_step_def paginate_def eval_nat_numeral)

text \<open>
  C5. For a store whose replies have distinct keys and fuel above the number of listed
  replies: the flat list that the threaded listing starts from is ordered by creation
  time and holds exactly the replies of the post that are not soft-deleted; the loop
  collects the root replies of that list and caches, for every reply of the list, its
  direct children in creation-time order; and the listing returns, as skip and limit
  applied to it, the concatenation of the pre-order flattenings of the root replies,
  each reply followed by the whole of its subtree: the first \<open>skip\<close> replies of the
  concatenation are dropped and at most \<open>limit\<close> of the rest are kept.
\<close>

theorem threaded_listing_is_preorder:
  assumes "distinct (map r_id (replies d))"
    and "length (post_replies_query d post_id) < n"
  shows "sorted (map r_created_at (post_replies_query d post_id))
       \<and> set (post_replies_query d post_id) =
           {r \<in> set (replies d). r_post_id r = post_id \<and> r_deleted_at r = None}
       \<and> fst (thread_hierarchy (post_replies_query d post_id)) =
           filter (\<lambda>r. r_parent_id r = None) (post_replies_query d post_id)
       \<and> (\<forall>r \<in> set (post_replies_query d post_id).
             (case snd (thread_hierarchy (post_replies_query d post_id)) (r_id r) of
                None \<Rightarrow> [] | Some cs \<Rightarrow> cs) =
               spec_children (post_replies_query d post_id) r
             \<and> sorted (map r_created_at (spec_children (post_replies_query d post_id) r)))
       \<and> (\<exists>subs. list_all2 (spec_preorder (post_replies_query d post_id))
                    (filter (\<lambda>r. r_parent_id r = None) (post_replies_query d post_id)) subs
              \<and> get_post_replies_threaded n d post_id skip limit =
                  Some (take limit (drop skip (concat subs))))"
proof -
  let ?xs = "post_replies_query d post_id"
  have s: "sorted (map r_created_at ?xs)" by (simp add: post_replies_query_def)
  have ch: "\<forall>r \<in> set ?xs.
             (case snd (thread_hierarchy ?xs) (r_id r) of None \<Rightarrow> [] | Some cs \<Rightarrow> cs) =
               spec_children ?xs r
             \<and> sorted (map r_created_at (spec_children ?xs r))"
  proof
    fix r assume "r \<in> set ?xs"
    then have "(case snd (thread_hierarchy ?xs) (r_id r) of None \<Rightarrow> [] | Some cs \<Rightarrow> cs) =
               spec_children ?xs r"
      by (simp add: thread_hierarchy_cache)
    moreover have "sorted (map r_created_at (spec_children ?xs r))"
      unfolding spec_children_def using s by (rule sorted_filter)
    ultimately show "(case snd (thread_hierarchy ?xs) (r_id r) of None \<Rightarrow> [] | Some cs \<Rightarrow> cs) =
               spec_children ?xs r
             \<and> sorted (map r_created_at (spec_children ?xs r))" by simp
  qed
  show ?thesis
    by (intro conjI) (rule s ch post_replies_query_set thread_hierarchy_roots
        threaded_Some [OF assms, unfolded paginate_def])+
qed

theorem threaded_listing_is_preorder_witness:
  "distinct (map r_id (replies tree_db))
   \<and> length (post_replies_query tree_db 1) < 8
   \<and> map r_id (post_replies_query tree_db 1) = [1, 2, 3, 4, 5, 7, 8]
   \<and> (\<exists>full. get_post_replies_threaded 8 tree_db 1 0 100 = Some full
          \<and> map r_id full = [1, 3, 4, 5, 2]
          \<and> get_post_replies_threaded 8 tree_db 1 1 3 = Some (take 3 (drop 1 full))
          \<and> map r_id (take 3 (drop 1 full)) = [3, 4, 5])"
proof -
  let ?xs = "post_replies_query tree_db 1"
  let ?roots = "filter (\<lambda>r. r_parent_id r = None) ?xs"
  have h1: "distinct (map r_id (replies tree_db))" by (simp add: tree_db_def)
  have h2: "length ?xs < 8"
    by (simp add: tree_db_def post_replies_query_def)
  obtain subs where l: "list_all2 (spec_preorder ?xs) ?roots subs"
    and full: "get_post_replies_threaded 8 tree_db 1 0 100 = Some (take 100 (drop 0 (concat subs)))"
    using threaded_listing_is_preorder [OF h1 h2, of 0 100] by blast
  obtain subs' where l': "list_all2 (spec_preorder ?xs) ?roots subs'"
    and page: "get_post_replies_threaded 8 tree_db 1 1 3 = Some (take 3 (drop 1 (concat subs')))"
    using threaded_listing_is_preorder [OF h1 h2, of 1 3] by blast
  have "subs' = subs" using l' l by (rule spec_preorder_list_unique)
  have ids: "map r_id (take 100 (concat subs)) = [1, 3, 4, 5, 2]"
    using full tree_db_threaded by simp
  have "length (map r_id (take 100 (concat subs))) = 5"
    unfolding ids by simp
  then have "length (take 100 (concat subs)) = 5"
    by (simp only: length_map)
  then have all: "take 100 (concat subs) = concat subs" by (simp add: min_def split: if_splits)
  have f: "get_post_replies_threaded 8 tree_db 1 0 100 = Some (concat subs)"
    using full all by simp
  have i: "map r_id (concat subs) = [1, 3, 4, 5, 2]" using ids all by simp
  have p: "get_post_replies_threaded 8 tree_db 1 1 3 = Some (take 3 (drop 1 (concat subs)))"
    using page \<open>subs' = subs\<close> by simp
  have pi: "map r_id (take 3 (drop 1 (concat subs))) = [3, 4, 5]"
    using p tree_db_threaded_page by simp
  show ?thesis
    by (intro conjI exI [of _ "concat subs"]) (rule h1 h2 tree_db_listing f i p pi)+
qed

subsection \<open>What the listing leaves out\<close>

lemma orphan_not_attached:
  assumes "Reply_parent d r = Some x" "r_deleted_at x \<noteq> None"
  shows "\<not> attached d (post_replies_query d p) r"
proof
  assume "attached d (post_replies_query d p) r"
  then show False
  proof (cases rule: attached.cases)
    case root
    then show ?thesis using assms(1) by (simp add: Reply_parent_def)
  next
    case (child r')
    then have "attached d (post_replies_query d p) x" using assms(1) by simp
    then have "x \<in> set (post_replies_query d p)" by (rule attached_member)
    then show ?thesis using assms(2) by (simp add: post_replies_query_set)
  qed
qed

lemma flat_listing_all:
  "get_post_replies d p 0 (length (replies d)) = post_replies_query d p"
proof -
  have "length (post_replies_query d p) \<le> length (replies d)"
    by (simp add: post_replies_query_def)
  then show ?thesis by (simp add: get_post_replies_def paginate_def)
qed

text \<open>
  C9. In a store whose replies have distinct keys, let a reply of the post be live and
  let its parent be a soft-deleted reply. The flat listing of the post contains the
  reply. In the threaded listing it is neither a root reply nor in the children cache of
  any reply, and the listing, which returns for fuel above the number of listed replies,
  contains neither the reply nor any reply that has it among its ancestors.
\<close>

theorem threaded_listing_drops_orphans:
  assumes pk: "distinct (map r_id (replies d))"
    and rin: "r \<in> set (replies d)"
    and rp: "r_post_id r = post_id"
    and rl: "r_deleted_at r = None"
    and par: "Reply_parent d r = Some x"
    and xd: "r_deleted_at x \<noteq> None"
    and fuel: "length (post_replies_query d post_id) < n"
  shows "r \<in> set (get_post_replies d post_id 0 (length (replies d)))
       \<and> r \<notin> set (fst (thread_hierarchy (post_replies_query d post_id)))
       \<and> (\<forall>p cs. snd (thread_hierarchy (post_replies_query d post_id)) p = Some cs \<longrightarrow> r \<notin> set cs)
       \<and> (\<exists>out. get_post_replies_threaded n d post_id skip limit = Some out
              \<and> r \<notin> set out
              \<and> (\<forall>y m as. y \<in> set out \<and> ancestors m d y = Some as \<longrightarrow> r \<notin> set as))"
proof -
  let ?xs = "post_replies_query d post_id"
  let ?roots = "filter (\<lambda>r. r_parent_id r = None) ?xs"
  have sub: "set ?xs \<subseteq> set (replies d)" by (auto simp: post_replies_query_set)
  have na: "\<not> attached d ?xs r" using par xd by (rule orphan_not_attached)
  have pid: "r_parent_id r = Some (r_id x)" and xin: "x \<in> set (replies d)"
    using par by (auto simp: Reply_parent_def find_Some_iff split: option.splits)
  have c1: "r \<in> set (get_post_replies d post_id 0 (length (replies d)))"
    using rin rp rl by (simp add: flat_listing_all post_replies_query_set)
  have c2: "r \<notin> set (fst (thread_hierarchy ?xs))"
    using pid by (simp add: thread_hierarchy_roots)
  have c3: "\<forall>p cs. snd (thread_hierarchy ?xs) p = Some cs \<longrightarrow> r \<notin> set cs"
  proof (intro allI impI notI)
    fix p cs
    assume cs: "snd (thread_hierarchy ?xs) p = Some cs" and rc: "r \<in> set cs"
    have "cs = (if p \<in> r_id ` set ?xs then filter (\<lambda>c. r_parent_id c = Some p) ?xs else [])"
      using thread_hierarchy_cache_key [of ?xs p] cs by simp
    then have "p \<in> r_id ` set ?xs" and "r_parent_id r = Some p"
      using rc by (auto split: if_splits)
    then obtain y where y: "y \<in> set ?xs" "r_id y = r_id x" using pid by auto
    have "y \<in> set (replies d)" using y(1) sub by blast
    then have "y = x" using key_unique [OF pk xin] y(2) by blast
    then show False using y(1) xd by (simp add: post_replies_query_set)
  qed
  obtain subs where subs: "list_all2 (spec_preorder ?xs) ?roots subs"
    and res: "get_post_replies_threaded n d post_id skip limit = Some (paginate skip limit (concat subs))"
    using threaded_Some [OF pk fuel, of skip limit] by blast
  have att: "attached d ?xs y" if "y \<in> set (paginate skip limit (concat subs))" for y
  proof -
    have "y \<in> set (take limit (drop skip (concat subs)))"
      using that by (simp add: paginate_def)
    then have "y \<in> set (drop skip (concat subs))" by (rule in_set_takeD)
    then have "y \<in> set (concat subs)" by (rule in_set_dropD)
    then obtain s where s: "s \<in> set subs" "y \<in> set s" by auto
    obtain root where root: "root \<in> set ?roots" "spec_preorder ?xs root s"
      using list_all2_set2 [OF subs s(1)] by blast
    have "attached d ?xs root" using root(1) by (intro attached.root) simp_all
    then show ?thesis using spec_preorder_attached [OF pk sub root(2)] s(2) by blast
  qed
  have c4: "r \<notin> set (paginate skip limit (concat subs))" using att na by blast
  have c5: "\<forall>y m as. y \<in> set (paginate skip limit (concat subs)) \<and> ancestors m d y = Some as
              \<longrightarrow> r \<notin> set as"
  proof (intro allI impI notI)
    fix y m as
    assume h: "y \<in> set (paginate skip limit (concat subs)) \<and> ancestors m d y = Some as"
      and ras: "r \<in> set as"
    have ay: "attached d ?xs y" using h att by blast
    have "ancestors_loop m d (Reply_parent d y) [] = Some as" using h by (simp add: ancestors_def)
    then have "attached d ?xs r" using ancestors_loop_attached [OF ay _ _ ras] by simp
    then show False using na by simp
  qed
  show ?thesis using c1 c2 c3 res c4 c5 by blast
qed

theorem threaded_listing_drops_orphans_witness:
  "distinct (map r_id (replies tree_db))
   \<and> replies tree_db ! 6 \<in> set (replies tree_db)
   \<and> r_id (replies tree_db ! 6) = 7
   \<and> r_post_id (replies tree_db ! 6) = 1
   \<and> r_deleted_at (replies tree_db ! 6) = None
   \<and> Reply_parent tree_db (replies tree_db ! 6) = Some (replies tree_db ! 5)
   \<and> r_deleted_at (replies tree_db ! 5) \<noteq> None
   \<and> length (post_replies_query tree_db 1) < 8
   \<and> replies tree_db ! 6 \<in> set (get_post_replies tree_db 1 0 (length (replies tree_db)))
   \<and> (\<exists>out. get_post_replies_threaded 8 tree_db 1 0 100 = Some out
          \<and> replies tree_db ! 6 \<notin> set out)"
proof -
  have h1: "distinct (map r_id (replies tree_db))" by (simp add: tree_db_def)
  have h2: "replies tree_db ! 6 \<in> set (replies tree_db)" by (simp add: tree_db_def)
  have k: "r_id (replies tree_db ! 6) = 7" by (simp add: tree_db_def)
  have h3: "r_post_id (replies tree_db ! 6) = 1" by (simp add: tree_db_def)
  have h4: "r_deleted_at (replies tree_db ! 6) = None" by (simp add: tree_db_def)
  have h5: "Reply_parent tree_db (replies tree_db ! 6) = Some (replies tree_db ! 5)"
    by (simp add: tree_db_def Reply_parent_def)
  have h6: "r_deleted_at (replies tree_db ! 5) \<noteq> None" by (simp add: tree_db_def)
  have h7: "length (post_replies_query tree_db 1) < 8"
    by (simp add: tree_db_def post_replies_query_def)
  note inst = threaded_listing_drops_orphans [OF h1 h2 h3 h4 h5 h6 h7, of 0 100]
  have a: "replies tree_db ! 6 \<in> set (get_post_replies tree_db 1 0 (length (replies tree_db)))"
    using inst by (rule conjunct1)
  have b: "\<exists>out. get_post_replies_threaded 8 tree_db 1 0 100 = Some out
          \<and> replies tree_db ! 6 \<notin> set out"
    using inst by blast
  show ?thesis using h1 h2 k h3 h4 h5 h6 h7 a b by blast
qed

end
